theory Spec2Isabelle
  imports Complex_Main "HOL-Library.Multiset"
begin

section \<open>The highlight record (src/lib/types.ts)\<close>

text \<open>
  The \<^verbatim>\<open>Highlight\<close> interface. The fields \<^verbatim>\<open>id\<close>, \<^verbatim>\<open>text\<close> and \<^verbatim>\<open>note\<close> carry the
  suffix \<open>_h\<close> because their names are taken in Isabelle. Offsets and the timestamp
  are JavaScript numbers that only ever hold integers here; \<^verbatim>\<open>color\<close> is optional.
\<close>

record Highlight =
  id_h :: string
  url :: string
  text_h :: string
  note_h :: string
  startOffset :: int
  endOffset :: int
  xpath :: string
  timestamp :: int
  color :: "string option"

text \<open>
  \<^verbatim>\<open>Partial<Highlight>\<close>: every field may be absent (\<open>None\<close>) or present. A present
  \<^verbatim>\<open>color\<close> may itself be \<^verbatim>\<open>undefined\<close>.
\<close>

record PartialHighlight =
  p_id :: "string option"
  p_url :: "string option"
  p_text :: "string option"
  p_note :: "string option"
  p_startOffset :: "int option"
  p_endOffset :: "int option"
  p_xpath :: "string option"
  p_timestamp :: "int option"
  p_color :: "string option option"

text \<open>The object spread \<^verbatim>\<open>{ ...h, ...updates }\<close>: a present field of the update wins.\<close>

definition spread :: "Highlight \<Rightarrow> PartialHighlight \<Rightarrow> Highlight" where
  "spread h u =
     \<lparr> id_h = (case p_id u of None \<Rightarrow> id_h h | Some v \<Rightarrow> v),
       url = (case p_url u of None \<Rightarrow> url h | Some v \<Rightarrow> v),
       text_h = (case p_text u of None \<Rightarrow> text_h h | Some v \<Rightarrow> v),
       note_h = (case p_note u of None \<Rightarrow> note_h h | Some v \<Rightarrow> v),
       startOffset = (case p_startOffset u of None \<Rightarrow> startOffset h | Some v \<Rightarrow> v),
       endOffset = (case p_endOffset u of None \<Rightarrow> endOffset h | Some v \<Rightarrow> v),
       xpath = (case p_xpath u of None \<Rightarrow> xpath h | Some v \<Rightarrow> v),
       timestamp = (case p_timestamp u of None \<Rightarrow> timestamp h | Some v \<Rightarrow> v),
       color = (case p_color u of None \<Rightarrow> color h | Some v \<Rightarrow> v) \<rparr>"

section \<open>The highlight store (src/lib/storage.ts)\<close>

text \<open>
  Exceptions of the platform that the code can meet. They are values of the model:
  a function that can throw returns \<open>error + 'a\<close>, with \<open>Inl\<close> for the throw.
\<close>

datatype error = SyntaxError | HierarchyRequestError | TypeError

subsection \<open>What \<^verbatim>\<open>JSON.parse\<close> returns\<close>

text \<open>
  A JSON value, as \<^verbatim>\<open>JSON.parse\<close> builds it. A number is the rational that the parsed
  number is. The properties of an object are kept in their order, each name once.
\<close>

datatype json =
    JNull
  | JBool bool
  | JNumber rat
  | JString string
  | JArray "json list"
  | JObject "(string \<times> json) list"

text \<open>
  The value that is a record of the type \<^verbatim>\<open>Highlight\<close>: an object with the eight
  required properties, each of its declared type (the numbers whole), with or without
  a \<^verbatim>\<open>color\<close> string, and with no other property.
\<close>

definition string_field :: "(string \<times> json) list \<Rightarrow> string \<Rightarrow> string option" where
  "string_field kvs k = (case map_of kvs k of Some (JString s) \<Rightarrow> Some s | _ \<Rightarrow> None)"

definition int_field :: "(string \<times> json) list \<Rightarrow> string \<Rightarrow> int option" where
  "int_field kvs k =
     (case map_of kvs k of
        Some (JNumber q) \<Rightarrow> if q = of_int \<lfloor>q\<rfloor> then Some \<lfloor>q\<rfloor> else None
      | _ \<Rightarrow> None)"

definition required_keys :: "string list" where
  "required_keys =
     [''id'', ''url'', ''text'', ''note'', ''startOffset'', ''endOffset'', ''xpath'',
      ''timestamp'']"

fun of_json :: "json \<Rightarrow> Highlight option" where
  "of_json (JObject kvs) =
     (case (string_field kvs ''id'', string_field kvs ''url'', string_field kvs ''text'',
            string_field kvs ''note'', int_field kvs ''startOffset'',
            int_field kvs ''endOffset'', string_field kvs ''xpath'',
            int_field kvs ''timestamp'') of
        (Some i, Some u, Some t, Some n, Some s, Some e, Some x, Some ts) \<Rightarrow>
          if distinct (map fst kvs)
             \<and> set (map fst kvs) - {''color''} = set required_keys
             \<and> (map_of kvs ''color'' = None \<or> string_field kvs ''color'' \<noteq> None)
          then Some \<lparr> id_h = i, url = u, text_h = t, note_h = n, startOffset = s,
                      endOffset = e, xpath = x, timestamp = ts,
                      color = string_field kvs ''color'' \<rparr>
          else None
      | _ \<Rightarrow> None)"
| "of_json JNull = None"
| "of_json (JBool b) = None"
| "of_json (JNumber q) = None"
| "of_json (JString s) = None"
| "of_json (JArray vs) = None"

fun all_of_json :: "json list \<Rightarrow> Highlight list option" where
  "all_of_json [] = Some []"
| "all_of_json (v # vs) =
     (case of_json v of
        None \<Rightarrow> None
      | Some h \<Rightarrow> (case all_of_json vs of None \<Rightarrow> None | Some hs \<Rightarrow> Some (h # hs)))"

text \<open>
  A highlight as an object, with the properties in the order in which
  \<^verbatim>\<open>handleSaveHighlight\<close> builds it; an undefined \<^verbatim>\<open>color\<close> is not written.
\<close>

definition to_json :: "Highlight \<Rightarrow> json" where
  "to_json h =
     JObject
       ([(''url'', JString (url h)), (''text'', JString (text_h h)),
         (''note'', JString (note_h h)), (''startOffset'', JNumber (of_int (startOffset h))),
         (''endOffset'', JNumber (of_int (endOffset h))), (''xpath'', JString (xpath h)),
         (''id'', JString (id_h h)), (''timestamp'', JNumber (of_int (timestamp h)))]
        @ (case color h of None \<Rightarrow> [] | Some c \<Rightarrow> [(''color'', JString c)]))"

text \<open>
  The parsed value, seen with the declared type of \<^verbatim>\<open>getAll\<close>: a list of highlights
  when it is an array of such records, any other value as it is.
\<close>

datatype parsed = Highlights "Highlight list" | Other json

definition classify :: "json \<Rightarrow> parsed" where
  "classify v =
     (case v of
        JArray vs \<Rightarrow> (case all_of_json vs of Some hs \<Rightarrow> Highlights hs | None \<Rightarrow> Other v)
      | _ \<Rightarrow> Other v)"

subsection \<open>The storage\<close>

text \<open>
  What the slot \<^verbatim>\<open>text_highlights\<close> of \<^verbatim>\<open>localStorage\<close> holds, when it holds a
  string, by what \<^verbatim>\<open>JSON.parse\<close> makes of the string: the JSON text of a list of
  highlights (kept as the list it denotes, since \<^verbatim>\<open>JSON.parse (JSON.stringify l)\<close>
  gives \<open>l\<close> back for these records), the JSON text of another value (kept as that
  value), or a string that is not JSON text at all.
\<close>

datatype payload = Serialized "Highlight list" | OtherJSON json | Malformed string

text \<open>
  The storage: the slot (\<open>None\<close> when \<^verbatim>\<open>getItem\<close> returns \<^verbatim>\<open>null\<close>) and the number
  of \<^verbatim>\<open>setItem\<close> calls made so far, so that a write is visible even when it stores
  what was there.
\<close>

record localStorage =
  slot :: "payload option"
  setItem_calls :: nat

definition setItem :: "payload \<Rightarrow> localStorage \<Rightarrow> localStorage" where
  "setItem v st = st\<lparr> slot := Some v, setItem_calls := Suc (setItem_calls st) \<rparr>"

fun JSON_stringify :: "parsed \<Rightarrow> payload" where
  "JSON_stringify (Highlights hs) = Serialized hs"
| "JSON_stringify (Other v) =
     (case classify v of Highlights hs \<Rightarrow> Serialized hs | Other v' \<Rightarrow> OtherJSON v')"

fun JSON_parse :: "payload \<Rightarrow> error + parsed" where
  "JSON_parse (Serialized hs) = Inr (Highlights hs)"
| "JSON_parse (OtherJSON v) = Inr (classify v)"
| "JSON_parse (Malformed s) = Inl SyntaxError"

text \<open>
  JavaScript truthiness of a string: only the empty string is falsy. A JSON text is
  never empty.
\<close>

fun truthy :: "payload \<Rightarrow> bool" where
  "truthy (Serialized hs) = True"
| "truthy (OtherJSON v) = True"
| "truthy (Malformed s) = (s \<noteq> [])"

text \<open>
  \<^verbatim>\<open>getAll\<close>: \<^verbatim>\<open>return data ? JSON.parse(data) : []\<close>. The parsed value is returned as
  it is, whatever it is.
\<close>

definition getAll :: "localStorage \<Rightarrow> error + parsed" where
  "getAll st =
     (case slot st of
        None \<Rightarrow> Inr (Highlights [])
      | Some data \<Rightarrow> if truthy data then JSON_parse data else Inr (Highlights []))"

subsection \<open>The operations on a value that is not a list of highlights\<close>

text \<open>
  The test \<^verbatim>\<open>h.id === id\<close> (or \<^verbatim>\<open>h.url === url\<close>) on an element \<open>h\<close> of any kind:
  reading a property of \<^verbatim>\<open>null\<close> throws; an object has the property or not; numbers,
  booleans, strings and arrays have no property of these names.
\<close>

fun has_string_property :: "string \<Rightarrow> string \<Rightarrow> json \<Rightarrow> error + bool" where
  "has_string_property k s JNull = Inl TypeError"
| "has_string_property k s (JObject kvs) = Inr (map_of kvs k = Some (JString s))"
| "has_string_property k s (JBool b) = Inr False"
| "has_string_property k s (JNumber q) = Inr False"
| "has_string_property k s (JString t) = Inr False"
| "has_string_property k s (JArray vs) = Inr False"

text \<open>\<^verbatim>\<open>Array.prototype.filter\<close> and \<^verbatim>\<open>findIndex\<close> with a test that can throw.\<close>

fun filter_js :: "(json \<Rightarrow> error + bool) \<Rightarrow> json list \<Rightarrow> error + json list" where
  "filter_js P [] = Inr []"
| "filter_js P (x # xs) =
     (case P x of
        Inl e \<Rightarrow> Inl e
      | Inr b \<Rightarrow>
          (case filter_js P xs of
             Inl e \<Rightarrow> Inl e
           | Inr ys \<Rightarrow> Inr (if b then x # ys else ys)))"

fun findIndex_js :: "(json \<Rightarrow> error + bool) \<Rightarrow> json list \<Rightarrow> error + int" where
  "findIndex_js P [] = Inr (- 1)"
| "findIndex_js P (x # xs) =
     (case P x of
        Inl e \<Rightarrow> Inl e
      | Inr b \<Rightarrow>
          if b then Inr 0
          else (case findIndex_js P xs of
                  Inl e \<Rightarrow> Inl e
                | Inr k \<Rightarrow> Inr (if k = - 1 then - 1 else k + 1)))"

text \<open>
  The properties that an update carries, in the order of the interface; the value
  \<open>None\<close> is a property that is present and \<^verbatim>\<open>undefined\<close>.
\<close>

definition partial_fields :: "PartialHighlight \<Rightarrow> (string \<times> json option) list" where
  "partial_fields u =
     (case p_id u of None \<Rightarrow> [] | Some v \<Rightarrow> [(''id'', Some (JString v))])
     @ (case p_url u of None \<Rightarrow> [] | Some v \<Rightarrow> [(''url'', Some (JString v))])
     @ (case p_text u of None \<Rightarrow> [] | Some v \<Rightarrow> [(''text'', Some (JString v))])
     @ (case p_note u of None \<Rightarrow> [] | Some v \<Rightarrow> [(''note'', Some (JString v))])
     @ (case p_startOffset u of None \<Rightarrow> []
        | Some v \<Rightarrow> [(''startOffset'', Some (JNumber (of_int v)))])
     @ (case p_endOffset u of None \<Rightarrow> []
        | Some v \<Rightarrow> [(''endOffset'', Some (JNumber (of_int v)))])
     @ (case p_xpath u of None \<Rightarrow> [] | Some v \<Rightarrow> [(''xpath'', Some (JString v))])
     @ (case p_timestamp u of None \<Rightarrow> []
        | Some v \<Rightarrow> [(''timestamp'', Some (JNumber (of_int v)))])
     @ (case p_color u of None \<Rightarrow> [] | Some v \<Rightarrow> [(''color'', map_option JString v)])"

text \<open>
  One property written into an object: in place when the object has it, at the end
  otherwise. A property that is \<^verbatim>\<open>undefined\<close> is not in the JSON text again, so that
  it is removed.
\<close>

fun set_property :: "string \<Rightarrow> json \<Rightarrow> (string \<times> json) list \<Rightarrow> (string \<times> json) list" where
  "set_property k v [] = [(k, v)]"
| "set_property k v ((k', v') # kvs) =
     (if k' = k then (k, v) # kvs else (k', v') # set_property k v kvs)"

fun spread_json :: "(string \<times> json) list \<Rightarrow> (string \<times> json option) list \<Rightarrow> (string \<times> json) list" where
  "spread_json kvs [] = kvs"
| "spread_json kvs ((k, Some v) # props) = spread_json (set_property k v kvs) props"
| "spread_json kvs ((k, None) # props) = spread_json (filter (\<lambda>kv. fst kv \<noteq> k) kvs) props"

subsection \<open>The operations of \<^verbatim>\<open>HighlightStorage\<close>\<close>

text \<open>
  Each operation reads the whole value with \<^verbatim>\<open>getAll\<close>. On a list of highlights it
  works on the records. On an array with other elements it works on the values; on a
  value that is no array, \<^verbatim>\<open>push\<close>, \<^verbatim>\<open>filter\<close> and \<^verbatim>\<open>findIndex\<close> are not functions and
  the call throws.
\<close>

definition save :: "Highlight \<Rightarrow> localStorage \<Rightarrow> error + localStorage" where
  "save highlight st =
     (case getAll st of
        Inl e \<Rightarrow> Inl e
      | Inr (Highlights highlights) \<Rightarrow>
          Inr (setItem (JSON_stringify (Highlights (highlights @ [highlight]))) st)
      | Inr (Other (JArray vs)) \<Rightarrow>
          Inr (setItem (JSON_stringify (Other (JArray (vs @ [to_json highlight])))) st)
      | Inr (Other v) \<Rightarrow> Inl TypeError)"

definition getByUrl :: "string \<Rightarrow> localStorage \<Rightarrow> error + parsed" where
  "getByUrl u st =
     (case getAll st of
        Inl e \<Rightarrow> Inl e
      | Inr (Highlights highlights) \<Rightarrow> Inr (Highlights (filter (\<lambda>h. url h = u) highlights))
      | Inr (Other (JArray vs)) \<Rightarrow>
          (case filter_js (has_string_property ''url'' u) vs of
             Inl e \<Rightarrow> Inl e
           | Inr ws \<Rightarrow> Inr (classify (JArray ws)))
      | Inr (Other v) \<Rightarrow> Inl TypeError)"

definition delete :: "string \<Rightarrow> localStorage \<Rightarrow> error + localStorage" where
  "delete i st =
     (case getAll st of
        Inl e \<Rightarrow> Inl e
      | Inr (Highlights all) \<Rightarrow>
          Inr (setItem (JSON_stringify (Highlights (filter (\<lambda>h. id_h h \<noteq> i) all))) st)
      | Inr (Other (JArray vs)) \<Rightarrow>
          (case filter_js (\<lambda>h. map_sum id Not (has_string_property ''id'' i h)) vs of
             Inl e \<Rightarrow> Inl e
           | Inr ws \<Rightarrow> Inr (setItem (JSON_stringify (Other (JArray ws))) st))
      | Inr (Other v) \<Rightarrow> Inl TypeError)"

text \<open>\<^verbatim>\<open>Array.prototype.findIndex\<close>: the first index that satisfies the test, or \<open>-1\<close>.\<close>

fun findIndex :: "('a \<Rightarrow> bool) \<Rightarrow> 'a list \<Rightarrow> int" where
  "findIndex P [] = - 1"
| "findIndex P (x # xs) =
     (if P x then 0 else (let k = findIndex P xs in if k = - 1 then - 1 else k + 1))"

definition update :: "string \<Rightarrow> PartialHighlight \<Rightarrow> localStorage \<Rightarrow> error + localStorage" where
  "update i updates st =
     (case getAll st of
        Inl e \<Rightarrow> Inl e
      | Inr (Highlights highlights) \<Rightarrow>
          (let index = findIndex (\<lambda>h. id_h h = i) highlights in
           if index \<noteq> - 1
           then Inr (setItem (JSON_stringify (Highlights
                  (highlights[nat index := spread (highlights ! nat index) updates]))) st)
           else Inr st)
      | Inr (Other (JArray vs)) \<Rightarrow>
          (case findIndex_js (has_string_property ''id'' i) vs of
             Inl e \<Rightarrow> Inl e
           | Inr index \<Rightarrow>
               if index \<noteq> - 1
               then Inr (setItem (JSON_stringify (Other (JArray
                      (vs[nat index :=
                            (case vs ! nat index of
                               JObject kvs \<Rightarrow> JObject (spread_json kvs (partial_fields updates))
                             | v \<Rightarrow> v)])))) st)
               else Inr st)
      | Inr (Other v) \<Rightarrow> Inl TypeError)"

text \<open>
  A sequence of store operations, as the callers issue them one after the other; a
  throw ends the sequence.
\<close>

datatype store_op = Save Highlight | Delete string | Update string PartialHighlight

fun store_step :: "store_op \<Rightarrow> localStorage \<Rightarrow> error + localStorage" where
  "store_step (Save h) st = save h st"
| "store_step (Delete i) st = delete i st"
| "store_step (Update i u) st = update i u st"

fun run_ops :: "store_op list \<Rightarrow> localStorage \<Rightarrow> error + localStorage" where
  "run_ops [] st = Inr st"
| "run_ops (x # ops) st =
     (case store_step x st of Inl e \<Rightarrow> Inl e | Inr st' \<Rightarrow> run_ops ops st')"

text \<open>
  What a store operation is expected to do to the list of ids when ids are immutable:
  a save appends one, a delete filters, an update changes nothing.
\<close>

fun ids_step :: "store_op \<Rightarrow> string list \<Rightarrow> string list" where
  "ids_step (Save h) ids = ids @ [id_h h]"
| "ids_step (Delete i) ids = filter (\<lambda>x. x \<noteq> i) ids"
| "ids_step (Update i u) ids = ids"

fun ids_after :: "store_op list \<Rightarrow> string list \<Rightarrow> string list" where
  "ids_after [] ids = ids"
| "ids_after (x # ops) ids = ids_after ops (ids_step x ids)"

fun carries_no_id :: "store_op \<Rightarrow> bool" where
  "carries_no_id (Update i u) = (p_id u = None)"
| "carries_no_id (Save h) = True"
| "carries_no_id (Delete i) = True"

subsection \<open>Sample records\<close>

definition sample_highlight :: Highlight where
  "sample_highlight =
     \<lparr> id_h = ''a'', url = ''https://example.org/'', text_h = ''wonderful'', note_h = [],
       startOffset = 6, endOffset = 15, xpath = ''/html[1]/body[1]/p[1]'', timestamp = 1,
       color = None \<rparr>"

definition no_fields :: PartialHighlight where
  "no_fields =
     \<lparr> p_id = None, p_url = None, p_text = None, p_note = None, p_startOffset = None,
       p_endOffset = None, p_xpath = None, p_timestamp = None, p_color = None \<rparr>"

definition empty_storage :: localStorage where
  "empty_storage = \<lparr> slot = None, setItem_calls = 0 \<rparr>"


section \<open>The document\<close>

text \<open>
  The part of the DOM that the content script reads and rewrites. An element has a
  namespace, a local name, its \<^verbatim>\<open>className\<close>, its \<^verbatim>\<open>title\<close>, the attributes set with
  \<^verbatim>\<open>setAttribute\<close> and the declarations of its inline style. A node is a text node,
  a comment or an element with its children. A document is given by its document
  element; a node of the document is addressed by the list of child indices that
  leads to it from the document element (\<open>[]\<close> is the document element itself, whose
  parent is the \<^verbatim>\<open>Document\<close> node).
\<close>

datatype namespace = HTML | SVG | MathML

record element =
  ns :: namespace
  localName :: string
  className :: string
  title :: string
  attributes :: "(string \<times> string) list"
  style :: "(string \<times> string) list"

datatype node = Text string | Comment string | Element element "node list"

type_synonym path = "nat list"

fun node_at :: "node \<Rightarrow> path \<Rightarrow> node option" where
  "node_at n [] = Some n"
| "node_at (Element e ks) (i # p) = (if i < length ks then node_at (ks ! i) p else None)"
| "node_at (Text s) (i # p) = None"
| "node_at (Comment c) (i # p) = None"

text \<open>\<^verbatim>\<open>Node.textContent\<close>: the data of a text node or of a comment; for an element,
  the data of the text nodes below it, in document order.\<close>

fun textContent :: "node \<Rightarrow> string" and descendant_text :: "node \<Rightarrow> string" where
  "textContent (Text s) = s"
| "textContent (Comment c) = c"
| "textContent (Element e ks) = concat (map descendant_text ks)"
| "descendant_text (Text s) = s"
| "descendant_text (Comment c) = []"
| "descendant_text (Element e ks) = concat (map descendant_text ks)"

text \<open>
  The node at a path replaced, among the children of its parent, by a list of nodes:
  what a sequence of \<^verbatim>\<open>insertBefore\<close> on the node followed by \<^verbatim>\<open>removeChild\<close> of it
  does, and \<^verbatim>\<open>replaceChild\<close> with a single new node. The document element has no
  element parent and is left alone.
\<close>

fun splice :: "node \<Rightarrow> path \<Rightarrow> node list \<Rightarrow> node" where
  "splice n [] new = n"
| "splice (Element e ks) [i] new =
     (if i < length ks then Element e (take i ks @ new @ drop (Suc i) ks) else Element e ks)"
| "splice (Element e ks) (i # j # p) new =
     (if i < length ks then Element e (ks[i := splice (ks ! i) (j # p) new]) else Element e ks)"
| "splice (Text s) (i # p) new = Text s"
| "splice (Comment c) (i # p) new = Comment c"

text \<open>
  \<^verbatim>\<open>Node.normalize()\<close>: below the node, empty text nodes are removed and adjacent
  text nodes are merged into the first of them.
\<close>

fun normalize_nodes :: "node list \<Rightarrow> node list" where
  "normalize_nodes [] = []"
| "normalize_nodes (Text s # rest) =
     (if s = [] then normalize_nodes rest
      else (case normalize_nodes rest of
              Text t # rest' \<Rightarrow> Text (s @ t) # rest'
            | r \<Rightarrow> Text s # r))"
| "normalize_nodes (Comment c # rest) = Comment c # normalize_nodes rest"
| "normalize_nodes (Element e ks # rest) = Element e (normalize_nodes ks) # normalize_nodes rest"

fun normalize :: "node \<Rightarrow> node" where
  "normalize (Element e ks) = Element e (normalize_nodes ks)"
| "normalize (Text s) = Text s"
| "normalize (Comment c) = Comment c"

fun normalize_at :: "node \<Rightarrow> path \<Rightarrow> node" where
  "normalize_at n [] = normalize n"
| "normalize_at (Element e ks) (i # p) =
     (if i < length ks then Element e (ks[i := normalize_at (ks ! i) p]) else Element e ks)"
| "normalize_at (Text s) (i # p) = Text s"
| "normalize_at (Comment c) (i # p) = Comment c"

section \<open>Restoring one highlight (content script, \<^verbatim>\<open>highlightTextInElement\<close>)\<close>

text \<open>
  \<^verbatim>\<open>String.prototype.substring\<close> on integer arguments: each argument is clamped to
  the string, and the two are swapped when the first is the larger. With one
  argument the end is the length of the string.
\<close>

definition substring :: "string \<Rightarrow> int \<Rightarrow> int \<Rightarrow> string" where
  "substring s a b =
     (let n = int (length s);
          a' = min (max a 0) n;
          b' = min (max b 0) n;
          lo = min a' b';
          hi = max a' b'
      in take (nat (hi - lo)) (drop (nat lo) s))"

definition substring_from :: "string \<Rightarrow> int \<Rightarrow> string" where
  "substring_from s a = substring s a (int (length s))"

text \<open>
  The text nodes that a \<^verbatim>\<open>TreeWalker\<close> with \<^verbatim>\<open>SHOW_TEXT\<close> visits: every text node
  below the root, in document order, here with its path from the root and its data.
  The root itself is never visited.
\<close>

fun walk_node :: "node \<Rightarrow> (path \<times> string) list"
  and walk_children :: "nat \<Rightarrow> node list \<Rightarrow> (path \<times> string) list" where
  "walk_node (Text s) = [([], s)]"
| "walk_node (Comment c) = []"
| "walk_node (Element e ks) = walk_children 0 ks"
| "walk_children i [] = []"
| "walk_children i (k # ks) =
     map (\<lambda>(p, s). (i # p, s)) (walk_node k) @ walk_children (Suc i) ks"

fun textNodes :: "node \<Rightarrow> (path \<times> string) list" where
  "textNodes (Element e ks) = walk_children 0 ks"
| "textNodes (Text s) = []"
| "textNodes (Comment c) = []"

definition HIGHLIGHT_CLASS :: string where
  "HIGHLIGHT_CLASS = ''text-highlight-extension''"

text \<open>The marker: the \<^verbatim>\<open>span\<close> that the script creates around the highlighted text.\<close>

definition marker :: "Highlight \<Rightarrow> string \<Rightarrow> node" where
  "marker highlight highlighted =
     Element
       \<lparr> ns = HTML,
         localName = ''span'',
         className = HIGHLIGHT_CLASS @ '' cursor-pointer transition-opacity hover:opacity-80'',
         title = (if note_h highlight \<noteq> [] then note_h highlight else ''Click to view note''),
         attributes = [(''data-highlight-id'', id_h highlight)],
         style =
           [(''background-color'',
               (case color highlight of
                  None \<Rightarrow> ''#fef08a''
                | Some c \<Rightarrow> if c \<noteq> [] then c else ''#fef08a'')),
            (''border-radius'', ''2px''),
            (''padding'', ''1px 2px'')] \<rparr>
       [Text highlighted]"

text \<open>
  The loop over the collected text nodes, with the running offset. It stops at the
  first text node whose range holds the range of the highlight; the result is the
  path of that node and the nodes that take its place, or \<open>None\<close> when the loop ends
  without a change (no such node, or an empty highlighted string).
\<close>

fun scan :: "Highlight \<Rightarrow> int \<Rightarrow> (path \<times> string) list \<Rightarrow> (path \<times> node list) option" where
  "scan highlight currentOffset [] = None"
| "scan highlight currentOffset ((p, content) # rest) =
     (let nodeLength = int (length content);
          nodeStart = currentOffset;
          nodeEnd = currentOffset + nodeLength
      in if nodeStart \<le> startOffset highlight \<and> endOffset highlight \<le> nodeEnd
         then (let startOffset' = startOffset highlight - nodeStart;
                   endOffset' = endOffset highlight - nodeStart;
                   before' = substring content 0 startOffset';
                   highlighted = substring content startOffset' endOffset';
                   after = substring_from content endOffset'
               in if highlighted \<noteq> []
                  then Some (p, (if before' \<noteq> [] then [Text before'] else [])
                                @ [marker highlight highlighted]
                                @ (if after \<noteq> [] then [Text after] else []))
                  else None)
         else scan highlight nodeEnd rest)"

text \<open>
  \<^verbatim>\<open>highlightTextInElement\<close>, on the node at path \<open>p\<close> of the document. A path that
  leads to no node of the document stands for a result of the XPath evaluation
  without text nodes below it (an attribute, for one).
\<close>

definition highlightTextInElement :: "node \<Rightarrow> path \<Rightarrow> Highlight \<Rightarrow> node" where
  "highlightTextInElement doc p highlight =
     (case node_at doc p of
        None \<Rightarrow> doc
      | Some element \<Rightarrow>
          (case scan highlight 0 (textNodes element) of
             None \<Rightarrow> doc
           | Some (q, new) \<Rightarrow> splice doc (p @ q) new))"

text \<open>
  The nodes that take the place of a text node with data \<open>content\<close> when the part
  from \<open>s\<close> to \<open>e\<close> of it is highlighted: the text before (when not empty), the marker
  around the part, the text after (when not empty).
\<close>

definition pieces :: "Highlight \<Rightarrow> string \<Rightarrow> nat \<Rightarrow> nat \<Rightarrow> node list" where
  "pieces h content s e =
     (if take s content \<noteq> [] then [Text (take s content)] else [])
     @ [marker h (take (e - s) (drop s content))]
     @ (if drop e content \<noteq> [] then [Text (drop e content)] else [])"

subsection \<open>A sample document\<close>

definition html_element :: "string \<Rightarrow> element" where
  "html_element name =
     \<lparr> ns = HTML, localName = name, className = [], title = [], attributes = [], style = [] \<rparr>"

definition sample_paragraph :: node where
  "sample_paragraph = Element (html_element ''p'') [Text ''Hello wonderful world'']"

definition sample_document :: node where
  "sample_document =
     Element (html_element ''html'')
       [Element (html_element ''head'') [],
        Element (html_element ''body'') [sample_paragraph]]"

section \<open>The address codec (src/lib/storage.ts, \<^verbatim>\<open>generateXPath\<close> and \<^verbatim>\<open>getElementByXPath\<close>)\<close>

subsection \<open>Characters\<close>

text \<open>A character of the model is a code unit below 256.\<close>

definition code :: "char \<Rightarrow> nat" where
  "code c = of_char c"

definition is_upper :: "char \<Rightarrow> bool" where
  "is_upper c = (65 \<le> code c \<and> code c \<le> 90)"

definition is_lower :: "char \<Rightarrow> bool" where
  "is_lower c = (97 \<le> code c \<and> code c \<le> 122)"

definition is_digit :: "char \<Rightarrow> bool" where
  "is_digit c = (48 \<le> code c \<and> code c \<le> 57)"

text \<open>ASCII upper and lower case, as the DOM uses them for the names of HTML elements.\<close>

definition ascii_upper :: "char \<Rightarrow> char" where
  "ascii_upper c = (if is_lower c then char_of (code c - 32) else c)"

definition ascii_lower :: "char \<Rightarrow> char" where
  "ascii_lower c = (if is_upper c then char_of (code c + 32) else c)"

text \<open>
  \<^verbatim>\<open>String.prototype.toLowerCase\<close> on one code unit below 256: the ASCII capitals and
  the capitals of Latin-1 (all of \<open>192..222\<close> but the multiplication sign) move up by 32.
\<close>

definition toLowerCase_char :: "char \<Rightarrow> char" where
  "toLowerCase_char c =
     (if is_upper c \<or> (192 \<le> code c \<and> code c \<le> 222 \<and> code c \<noteq> 215)
      then char_of (code c + 32) else c)"

definition toLowerCase :: "string \<Rightarrow> string" where
  "toLowerCase s = map toLowerCase_char s"

text \<open>The decimal digits of a number, as a template string prints an integer.\<close>

fun show_nat :: "nat \<Rightarrow> string" where
  "show_nat n =
     (if n < 10 then [char_of (48 + n)]
      else show_nat (n div 10) @ [char_of (48 + n mod 10)])"

declare show_nat.simps [simp del]

subsection \<open>\<^verbatim>\<open>generateXPath\<close>\<close>

fun is_element :: "node \<Rightarrow> bool" where
  "is_element (Element e ks) = True"
| "is_element (Text s) = False"
| "is_element (Comment c) = False"

fun is_text :: "node \<Rightarrow> bool" where
  "is_text (Text s) = True"
| "is_text (Element e ks) = False"
| "is_text (Comment c) = False"

text \<open>
  \<^verbatim>\<open>Node.nodeName\<close> in an HTML document: the local name in ASCII upper case for an
  HTML element, the name as it is for an element of another namespace.
\<close>

fun nodeName :: "node \<Rightarrow> string" where
  "nodeName (Element e ks) =
     (if ns e = HTML then map ascii_upper (localName e) else localName e)"
| "nodeName (Text s) = ''#text''"
| "nodeName (Comment c) = ''#comment''"

text \<open>
  The inner loop over \<^verbatim>\<open>previousSibling\<close>: one more than the number of element
  siblings before the current node (child \<open>i\<close> of its parent) that have its node name.
\<close>

definition sibling_index :: "node list \<Rightarrow> nat \<Rightarrow> nat" where
  "sibling_index ks i =
     1 + length (filter (\<lambda>sibling. is_element sibling \<and> nodeName sibling = nodeName (ks ! i))
                   (take i ks))"

definition segment :: "node \<Rightarrow> nat \<Rightarrow> string" where
  "segment current index = toLowerCase (nodeName current) @ ''['' @ show_nat index @ '']''"

text \<open>
  The segments of the elements on the way from a node down to the node at a path (the
  starting node excluded), in the order in which \<^verbatim>\<open>unshift\<close> leaves them.
\<close>

fun segments_below :: "node \<Rightarrow> path \<Rightarrow> string list" where
  "segments_below n [] = []"
| "segments_below (Element e ks) (i # p) =
     (if i < length ks
      then segment (ks ! i) (sibling_index ks i) # segments_below (ks ! i) p
      else [])"
| "segments_below (Text s) (i # p) = []"
| "segments_below (Comment c) (i # p) = []"

fun join :: "string \<Rightarrow> string list \<Rightarrow> string" where
  "join sep [] = []"
| "join sep [x] = x"
| "join sep (x # y # xs) = x @ sep @ join sep (y # xs)"

text \<open>
  \<^verbatim>\<open>generateXPath\<close> on the node at path \<open>p\<close> of the document. A text node is replaced
  by its parent; the empty string is the answer when what remains is not an element.
  The document element has no element sibling, so its index is 1.
\<close>

definition generateXPath :: "node \<Rightarrow> path \<Rightarrow> string" where
  "generateXPath doc p =
     (let q = (case node_at doc p of Some (Text s) \<Rightarrow> butlast p | _ \<Rightarrow> p)
      in case node_at doc q of
           Some (Element e ks) \<Rightarrow> ''/'' @ join ''/'' (segment doc 1 # segments_below doc q)
         | _ \<Rightarrow> [])"

subsection \<open>\<^verbatim>\<open>getElementByXPath\<close>\<close>

text \<open>
  \<^verbatim>\<open>document.evaluate\<close> is the XPath 1.0 evaluator of the browser. The model
  evaluates the expressions of the form that \<^verbatim>\<open>generateXPath\<close> writes: an absolute
  location path whose steps are \<^verbatim>\<open>name[number]\<close>, with \<^verbatim>\<open>name\<close> an ASCII name without
  a colon. Every other string is handed to a parameter that stands for the rest of
  the XPath language.
\<close>

definition is_name_start :: "char \<Rightarrow> bool" where
  "is_name_start c = (is_upper c \<or> is_lower c \<or> c = CHR ''_'')"

definition is_name_char :: "char \<Rightarrow> bool" where
  "is_name_char c = (is_name_start c \<or> is_digit c \<or> c = CHR ''-'' \<or> c = CHR ''.'')"

definition is_NCName :: "string \<Rightarrow> bool" where
  "is_NCName s = (s \<noteq> [] \<and> is_name_start (hd s) \<and> list_all is_name_char s)"

definition nat_of_digits :: "string \<Rightarrow> nat" where
  "nat_of_digits ds = foldl (\<lambda>a c. 10 * a + (code c - 48)) 0 ds"

fun split_on :: "char \<Rightarrow> string \<Rightarrow> string list" where
  "split_on d [] = [[]]"
| "split_on d (c # cs) =
     (if c = d then [] # split_on d cs
      else (case split_on d cs of [] \<Rightarrow> [[c]] | w # ws \<Rightarrow> (c # w) # ws))"

definition parse_step :: "string \<Rightarrow> (string \<times> nat) option" where
  "parse_step s =
     (let name = takeWhile is_name_char s;
          rest = dropWhile is_name_char s
      in if is_NCName name
         then (case rest of
                 [] \<Rightarrow> None
               | c # ds \<Rightarrow>
                   if c = CHR ''['' \<and> ds \<noteq> [] \<and> last ds = CHR '']'' \<and> butlast ds \<noteq> []
                      \<and> list_all is_digit (butlast ds)
                   then Some (name, nat_of_digits (butlast ds))
                   else None)
         else None)"

fun parse_steps :: "string list \<Rightarrow> (string \<times> nat) list option" where
  "parse_steps [] = Some []"
| "parse_steps (s # ss) =
     (case parse_step s of
        None \<Rightarrow> None
      | Some st \<Rightarrow> (case parse_steps ss of None \<Rightarrow> None | Some sts \<Rightarrow> Some (st # sts)))"

definition parse_location_path :: "string \<Rightarrow> (string \<times> nat) list option" where
  "parse_location_path s =
     (case split_on (CHR ''/'') s of
        [] # s1 # ss \<Rightarrow> parse_steps (s1 # ss)
      | _ \<Rightarrow> None)"

text \<open>
  The name test of a step without prefix, in an HTML document: it selects the HTML
  elements whose local name is the name up to ASCII case, and no element of another
  namespace.
\<close>

fun name_test :: "string \<Rightarrow> node \<Rightarrow> bool" where
  "name_test name (Element e ks) =
     (ns e = HTML \<and> map ascii_lower (localName e) = map ascii_lower name)"
| "name_test name (Text s) = False"
| "name_test name (Comment c) = False"

text \<open>The position of the \<open>k\<close>-th node of a list (counting from 1) that passes a test.\<close>

fun nth_match :: "('a \<Rightarrow> bool) \<Rightarrow> nat \<Rightarrow> 'a list \<Rightarrow> nat option" where
  "nth_match P k [] = None"
| "nth_match P k (x # xs) =
     (if P x
      then (if k = 1 then Some 0 else if k = 0 then None
            else map_option Suc (nth_match P (k - 1) xs))
      else map_option Suc (nth_match P k xs))"

fun child_nodes :: "node \<Rightarrow> node list" where
  "child_nodes (Element e ks) = ks"
| "child_nodes (Text s) = []"
| "child_nodes (Comment c) = []"

text \<open>The steps, taken from a context node whose children are \<open>ks\<close>.\<close>

fun resolve :: "node list \<Rightarrow> (string \<times> nat) list \<Rightarrow> path option" where
  "resolve ks [] = Some []"
| "resolve ks ((name, k) # steps) =
     (case nth_match (name_test name) k ks of
        None \<Rightarrow> None
      | Some i \<Rightarrow> map_option (\<lambda>p. i # p) (resolve (child_nodes (ks ! i)) steps))"

type_synonym xpath_evaluator = "string \<Rightarrow> node \<Rightarrow> error + path option"

text \<open>
  The evaluation starts at the \<^verbatim>\<open>Document\<close> node, whose only element child is the
  document element: the first index of the resolved path is that child and is dropped,
  since paths start at the document element.
\<close>

definition document_evaluate :: "xpath_evaluator \<Rightarrow> string \<Rightarrow> node \<Rightarrow> error + path option" where
  "document_evaluate other s doc =
     (case parse_location_path s of
        None \<Rightarrow> other s doc
      | Some steps \<Rightarrow> Inr (map_option tl (resolve [doc] steps)))"

definition getElementByXPath :: "xpath_evaluator \<Rightarrow> node \<Rightarrow> string \<Rightarrow> error + path option" where
  "getElementByXPath other doc s = document_evaluate other s doc"

text \<open>An evaluator for the rest of the language that rejects every expression.\<close>

definition rejecting :: xpath_evaluator where
  "rejecting s doc = Inl SyntaxError"

subsection \<open>The elements that the codec can address\<close>

text \<open>
  Child \<open>i\<close> of a list of siblings is well addressed when it is an HTML element whose
  local name is a name that the step grammar reads, and none of the siblings before
  it is an element of another namespace with its node name (such a sibling is counted
  by \<^verbatim>\<open>generateXPath\<close> and not selected by the name test).
\<close>

fun no_foreign_namesake :: "string \<Rightarrow> node \<Rightarrow> bool" where
  "no_foreign_namesake name (Element e ks) = (ns e = HTML \<or> localName e \<noteq> name)"
| "no_foreign_namesake name (Text s) = True"
| "no_foreign_namesake name (Comment c) = True"

definition well_addressed :: "node list \<Rightarrow> nat \<Rightarrow> bool" where
  "well_addressed ks i =
     (case ks ! i of
        Element e cs \<Rightarrow>
          ns e = HTML \<and> is_NCName (localName e)
          \<and> list_all (no_foreign_namesake (map ascii_upper (localName e))) (take i ks)
      | _ \<Rightarrow> False)"

fun well_addressed_below :: "node \<Rightarrow> path \<Rightarrow> bool" where
  "well_addressed_below n [] = True"
| "well_addressed_below (Element e ks) (i # p) =
     (i < length ks \<and> well_addressed ks i \<and> well_addressed_below (ks ! i) p)"
| "well_addressed_below (Text s) (i # p) = False"
| "well_addressed_below (Comment c) (i # p) = False"

text \<open>The node at path \<open>p\<close> and all the elements above it are well addressed.\<close>

definition addressable :: "node \<Rightarrow> path \<Rightarrow> bool" where
  "addressable doc p = (well_addressed [doc] 0 \<and> well_addressed_below doc p)"

subsection \<open>A page with inline SVG\<close>

definition svg_document :: node where
  "svg_document =
     Element (html_element ''html'')
       [Element (html_element ''head'') [],
        Element (html_element ''body'')
          [Element (html_element ''p'') [Text ''A drawing:''],
           Element ((html_element ''svg'')\<lparr> ns := SVG \<rparr>)
             [Element ((html_element ''text'')\<lparr> ns := SVG \<rparr>) [Text ''label'']]]]"

section \<open>The restoration pass (content script, \<^verbatim>\<open>renderHighlights\<close>)\<close>

subsection \<open>The elements that \<^verbatim>\<open>querySelectorAll\<close> selects\<close>

definition is_ascii_whitespace :: "char \<Rightarrow> bool" where
  "is_ascii_whitespace c = (code c = 9 \<or> code c = 10 \<or> code c = 12 \<or> code c = 13 \<or> code c = 32)"

text \<open>The class names of a \<^verbatim>\<open>class\<close> attribute: its parts between ASCII whitespace.\<close>

fun class_tokens :: "string \<Rightarrow> string \<Rightarrow> string list" where
  "class_tokens current [] = (if current = [] then [] else [current])"
| "class_tokens current (c # cs) =
     (if is_ascii_whitespace c
      then (if current = [] then [] else [current]) @ class_tokens [] cs
      else class_tokens (current @ [c]) cs)"

definition classList :: "element \<Rightarrow> string list" where
  "classList e = class_tokens [] (className e)"

text \<open>The selector \<^verbatim>\<open>.text-highlight-extension\<close>.\<close>

fun is_highlight :: "node \<Rightarrow> bool" where
  "is_highlight (Element e ks) = (HIGHLIGHT_CLASS \<in> set (classList e))"
| "is_highlight (Text s) = False"
| "is_highlight (Comment c) = False"

text \<open>The number of elements that the selector finds below and at a node.\<close>

fun count_highlights :: "node \<Rightarrow> nat" where
  "count_highlights (Element e ks) =
     (if HIGHLIGHT_CLASS \<in> set (classList e) then 1 else 0) + sum_list (map count_highlights ks)"
| "count_highlights (Text s) = 0"
| "count_highlights (Comment c) = 0"

text \<open>The first of them in document order, by its path.\<close>

fun first_highlight :: "node \<Rightarrow> path option"
  and first_highlight_in :: "nat \<Rightarrow> node list \<Rightarrow> path option" where
  "first_highlight (Element e ks) =
     (if HIGHLIGHT_CLASS \<in> set (classList e) then Some [] else first_highlight_in 0 ks)"
| "first_highlight (Text s) = None"
| "first_highlight (Comment c) = None"
| "first_highlight_in i [] = None"
| "first_highlight_in i (k # ks) =
     (case first_highlight k of
        Some p \<Rightarrow> Some (i # p)
      | None \<Rightarrow> first_highlight_in (Suc i) ks)"

subsection \<open>Removing the existing highlights\<close>

text \<open>
  One round of the first \<^verbatim>\<open>forEach\<close> that reaches the document: the first selected
  element \<open>el\<close> still in the document is replaced by a text node with its text content,
  and its parent is normalized. When \<open>el\<close> is the document element, its parent is the
  \<^verbatim>\<open>Document\<close> node, which takes no text child: \<^verbatim>\<open>replaceChild\<close> throws.
\<close>

definition unwind_first :: "node \<Rightarrow> error + node" where
  "unwind_first doc =
     (case first_highlight doc of
        None \<Rightarrow> Inr doc
      | Some p \<Rightarrow>
          (if p = [] then Inl HierarchyRequestError
           else (case node_at doc p of
                   None \<Rightarrow> Inr doc
                 | Some el \<Rightarrow>
                     Inr (normalize_at (splice doc p [Text (textContent el)]) (butlast p)))))"

text \<open>
  The \<^verbatim>\<open>forEach\<close> runs once for each element of the static list that
  \<^verbatim>\<open>querySelectorAll\<close> returned. The list is in document order, so the next of its
  elements that is still in the document is the first selected element of the
  document as it is now. An element of the list that left the document inside a
  replaced ancestor still has a parent, and the round on it rewrites that detached
  subtree only: on the document it is a round that finds nothing.
\<close>

fun unwind :: "nat \<Rightarrow> node \<Rightarrow> error + node" where
  "unwind 0 doc = Inr doc"
| "unwind (Suc n) doc =
     (case unwind_first doc of Inl e \<Rightarrow> Inl e | Inr doc' \<Rightarrow> unwind n doc')"

definition removeHighlights :: "node \<Rightarrow> error + node" where
  "removeHighlights doc = unwind (count_highlights doc) doc"

subsection \<open>Restoring the stored highlights\<close>

text \<open>
  The body of the second \<^verbatim>\<open>forEach\<close>, with its \<^verbatim>\<open>try\<close>: a throw of the XPath
  evaluation is caught and logged, and the document is as it was.
\<close>

definition restore :: "xpath_evaluator \<Rightarrow> node \<Rightarrow> Highlight \<Rightarrow> node" where
  "restore other doc highlight =
     (case getElementByXPath other doc (xpath highlight) of
        Inl error \<Rightarrow> doc
      | Inr None \<Rightarrow> doc
      | Inr (Some element) \<Rightarrow> highlightTextInElement doc element highlight)"

text \<open>
  A round of the second \<^verbatim>\<open>forEach\<close> on a stored value that is not a record of the
  type \<^verbatim>\<open>Highlight\<close>. What the round does with the properties that such a value has
  or lacks is left to a parameter, as the rest of XPath is.
\<close>

type_synonym untyped_round = "json \<Rightarrow> node \<Rightarrow> node"

definition restore_value :: "xpath_evaluator \<Rightarrow> untyped_round \<Rightarrow> node \<Rightarrow> json \<Rightarrow> node" where
  "restore_value other untyped doc v =
     (case of_json v of
        Some highlight \<Rightarrow> restore other doc highlight
      | None \<Rightarrow> untyped v doc)"

definition renderHighlights ::
  "xpath_evaluator \<Rightarrow> untyped_round \<Rightarrow> string \<Rightarrow> localStorage \<Rightarrow> node \<Rightarrow> error + node" where
  "renderHighlights other untyped href st doc =
     (case removeHighlights doc of
        Inl e \<Rightarrow> Inl e
      | Inr doc' \<Rightarrow>
          (case getByUrl href st of
             Inl e \<Rightarrow> Inl e
           | Inr (Highlights highlights) \<Rightarrow> Inr (foldl (restore other) doc' highlights)
           | Inr (Other (JArray vs)) \<Rightarrow> Inr (foldl (restore_value other untyped) doc' vs)
           | Inr (Other v) \<Rightarrow> Inl TypeError))"

text \<open>
  The records of a pass whose restoration put a marker into the document: those whose
  round of the loop changed the document it met.
\<close>

fun restored :: "xpath_evaluator \<Rightarrow> node \<Rightarrow> Highlight list \<Rightarrow> Highlight list" where
  "restored other doc [] = []"
| "restored other doc (h # hs) =
     (if restore other doc h \<noteq> doc then [h] else []) @ restored other (restore other doc h) hs"

text \<open>The \<^verbatim>\<open>data-highlight-id\<close> attributes of the selected elements, in document order.\<close>

fun highlight_ids :: "node \<Rightarrow> string option list" where
  "highlight_ids (Element e ks) =
     (if HIGHLIGHT_CLASS \<in> set (classList e)
      then [map_of (attributes e) ''data-highlight-id''] else [])
     @ concat (map highlight_ids ks)"
| "highlight_ids (Text s) = []"
| "highlight_ids (Comment c) = []"

subsection \<open>The document under its markers\<close>

text \<open>
  A node with every selected element below it, and itself when it is one, replaced by
  a text node with its text content: the nodes that the rounds of the first
  \<^verbatim>\<open>forEach\<close> put in, before any text nodes are merged.
\<close>

fun unmark :: "node \<Rightarrow> node" where
  "unmark (Element e ks) =
     (if HIGHLIGHT_CLASS \<in> set (classList e)
      then Text (textContent (Element e ks))
      else Element e (map unmark ks))"
| "unmark (Text s) = Text s"
| "unmark (Comment c) = Comment c"

text \<open>
  The lists of children that \<^verbatim>\<open>normalize\<close> has nothing to do on: no text node is
  empty, no text node follows a text node, and the same holds below every element.
\<close>

fun starts_with_text :: "node list \<Rightarrow> bool" where
  "starts_with_text (Text s # rest) = True"
| "starts_with_text (Comment c # rest) = False"
| "starts_with_text (Element e ks # rest) = False"
| "starts_with_text [] = False"

fun normal_nodes :: "node list \<Rightarrow> bool" where
  "normal_nodes [] = True"
| "normal_nodes (Text s # rest) = (s \<noteq> [] \<and> \<not> starts_with_text rest \<and> normal_nodes rest)"
| "normal_nodes (Comment c # rest) = normal_nodes rest"
| "normal_nodes (Element e ks # rest) = (normal_nodes ks \<and> normal_nodes rest)"

text \<open>
  The shape of the nodes that take the place of a text node in a restoration: a marker
  around a text that is not empty, after at most one text node and before at most one
  text node, neither of them empty.
\<close>

definition marker_pieces :: "Highlight \<Rightarrow> node list \<Rightarrow> bool" where
  "marker_pieces h new \<longleftrightarrow>
     (\<exists>b hl a. hl \<noteq> [] \<and>
        new = (if b \<noteq> [] then [Text b] else []) @ [marker h hl]
              @ (if a \<noteq> [] then [Text a] else []))"

subsection \<open>The ways in which the restoration of one record fails\<close>

text \<open>
  The first text node of the walk whose range holds the range of the highlight: the
  offset at which it starts and its data.
\<close>

fun containing :: "Highlight \<Rightarrow> int \<Rightarrow> (path \<times> string) list \<Rightarrow> (int \<times> string) option" where
  "containing h nodeStart [] = None"
| "containing h nodeStart ((p, content) # rest) =
     (if nodeStart \<le> startOffset h \<and> endOffset h \<le> nodeStart + int (length content)
      then Some (nodeStart, content)
      else containing h (nodeStart + int (length content)) rest)"

datatype outcome = AddressUnresolvable | RangeAmbiguous | EmptyHighlight | Marked

text \<open>
  How the restoration of one record ends on a document: the address does not resolve
  (the evaluation throws, finds nothing, or finds something that is not a node of the
  tree), no single text node holds the range, the highlighted string is empty, or a
  marker is due.
\<close>

definition outcome_of :: "xpath_evaluator \<Rightarrow> node \<Rightarrow> Highlight \<Rightarrow> outcome" where
  "outcome_of other doc h =
     (case getElementByXPath other doc (xpath h) of
        Inl e \<Rightarrow> AddressUnresolvable
      | Inr None \<Rightarrow> AddressUnresolvable
      | Inr (Some p) \<Rightarrow>
          (case node_at doc p of
             None \<Rightarrow> AddressUnresolvable
           | Some el \<Rightarrow>
               (case containing h 0 (textNodes el) of
                  None \<Rightarrow> RangeAmbiguous
                | Some (nodeStart, content) \<Rightarrow>
                    if substring content (startOffset h - nodeStart) (endOffset h - nodeStart) = []
                    then EmptyHighlight else Marked)))"

subsection \<open>A sample store\<close>

text \<open>An untyped round that leaves the document as it is.\<close>

definition ignoring :: untyped_round where
  "ignoring v doc = doc"

text \<open>Two records for the sample page: the address of the first one leads nowhere.\<close>

definition sample_storage :: localStorage where
  "sample_storage =
     \<lparr> slot = Some (Serialized
         [sample_highlight\<lparr> id_h := ''lost'', xpath := ''/html[1]/body[1]/div[1]'' \<rparr>,
          sample_highlight]),
       setItem_calls = 0 \<rparr>"

text \<open>The sample record with its two offsets exchanged, alone in the store.\<close>

definition reversed_highlight :: Highlight where
  "reversed_highlight = sample_highlight\<lparr> startOffset := 15, endOffset := 6 \<rparr>"

definition reversed_storage :: localStorage where
  "reversed_storage = \<lparr> slot = Some (Serialized [reversed_highlight]), setItem_calls = 0 \<rparr>"

text \<open>
  A page whose paragraph holds two adjacent text nodes, \<^verbatim>\<open>ab\<close> and \<^verbatim>\<open>cd\<close>, as a script
  that appends text nodes leaves them, and three records on the paragraph.
\<close>

definition adjacent_document :: node where
  "adjacent_document =
     Element (html_element ''html'')
       [Element (html_element ''head'') [],
        Element (html_element ''body'')
          [Element (html_element ''p'') [Text ''ab'', Text ''cd'']]]"

definition adjacent_storage :: localStorage where
  "adjacent_storage =
     \<lparr> slot = Some (Serialized
         [sample_highlight\<lparr> id_h := ''x'', startOffset := 1, endOffset := 3 \<rparr>,
          sample_highlight\<lparr> id_h := ''y'', startOffset := 0, endOffset := 2 \<rparr>,
          sample_highlight\<lparr> id_h := ''z'', startOffset := 2, endOffset := 4 \<rparr>]),
       setItem_calls = 0 \<rparr>"

definition sample_marked :: node where
  "sample_marked =
     Element (html_element ''html'')
       [Element (html_element ''head'') [],
        Element (html_element ''body'')
          [Element (html_element ''p'')
             [Text ''Hello '', marker sample_highlight ''wonderful'', Text '' world'']]]"

section \<open>Selection capture (content script, \<^verbatim>\<open>handleMouseUp\<close>)\<close>

text \<open>
  A \<^verbatim>\<open>Range\<close> of the selection: its boundary points, each a node of the document
  (by its path) and an offset into it. The fields carry the suffix \<open>_r\<close> where the
  name is that of a field of a highlight.
\<close>

record Range =
  startContainer :: path
  startOffset_r :: int
  endContainer :: path
  endOffset_r :: int

text \<open>
  The \<^verbatim>\<open>Selection\<close> as the handler reads it: \<^verbatim>\<open>isCollapsed\<close>, its ranges
  (\<^verbatim>\<open>rangeCount\<close> is their number) and the string that \<^verbatim>\<open>toString()\<close> returns.
\<close>

record Selection =
  isCollapsed :: bool
  ranges :: "Range list"
  toString :: string

text \<open>
  \<^verbatim>\<open>String.prototype.trim\<close>: white space and line terminators are removed at both
  ends. Below 256 these are the code units 9 to 13, 32 and 160.
\<close>

definition is_js_whitespace :: "char \<Rightarrow> bool" where
  "is_js_whitespace c = ((9 \<le> code c \<and> code c \<le> 13) \<or> code c = 32 \<or> code c = 160)"

definition trim :: "string \<Rightarrow> string" where
  "trim s = rev (dropWhile is_js_whitespace (rev (dropWhile is_js_whitespace s)))"

text \<open>
  What the handler takes from its surroundings: the address of the page, the id that
  \<^verbatim>\<open>Math.random().toString(36).substr(2, 9)\<close> gives, the time of \<^verbatim>\<open>Date.now()\<close> and
  the colour selected in the toolbar.
\<close>

record environment =
  location_href :: string
  random_id :: string
  now :: int
  selectedColor :: string

text \<open>The argument of \<^verbatim>\<open>handleSaveHighlight\<close>: a highlight without id, timestamp and colour.\<close>

record HighlightData =
  d_url :: string
  d_text :: string
  d_note :: string
  d_startOffset :: int
  d_endOffset :: int
  d_xpath :: string

definition handleSaveHighlight ::
  "environment \<Rightarrow> HighlightData \<Rightarrow> localStorage \<Rightarrow> error + localStorage" where
  "handleSaveHighlight env highlightData st =
     save \<lparr> id_h = random_id env,
            url = d_url highlightData,
            text_h = d_text highlightData,
            note_h = d_note highlightData,
            startOffset = d_startOffset highlightData,
            endOffset = d_endOffset highlightData,
            xpath = d_xpath highlightData,
            timestamp = now env,
            color = Some (selectedColor env) \<rparr> st"

text \<open>
  \<^verbatim>\<open>handleMouseUp\<close>. The activation flag is \<open>None\<close> while the stored value is not
  loaded; \<^verbatim>\<open>window.getSelection()\<close> may be \<^verbatim>\<open>null\<close>. When the two containers are the
  same node, that node is the common ancestor container of the range.
\<close>

definition handleMouseUp ::
  "environment \<Rightarrow> bool option \<Rightarrow> Selection option \<Rightarrow> node \<Rightarrow> localStorage
     \<Rightarrow> error + localStorage" where
  "handleMouseUp env isActivated selection doc st =
     (if isActivated \<noteq> Some True then Inr st
      else case selection of
        None \<Rightarrow> Inr st
      | Some sel \<Rightarrow>
          (if isCollapsed sel then Inr st
           else case ranges sel of
             [] \<Rightarrow> Inr st
           | range' # others \<Rightarrow>
               (let text = trim (toString sel) in
                if length text < 3 then Inr st
                else if (case node_at doc (startContainer range') of
                           Some (Text data) \<Rightarrow> True | _ \<Rightarrow> False)
                        \<and> startContainer range' = endContainer range'
                then handleSaveHighlight env
                       \<lparr> d_url = location_href env,
                         d_text = text,
                         d_note = [],
                         d_startOffset = startOffset_r range',
                         d_endOffset = endOffset_r range',
                         d_xpath = generateXPath doc (startContainer range') \<rparr> st
                else Inr st)))"

subsection \<open>A page with several text nodes in one paragraph\<close>

definition mixed_document :: node where
  "mixed_document =
     Element (html_element ''html'')
       [Element (html_element ''head'') [],
        Element (html_element ''body'')
          [Element (html_element ''p'')
             [Text ''Hello '', Element (html_element ''b'') [Text ''big''], Text '' world'']]]"

text \<open>The user selects \<^verbatim>\<open>world\<close> in the last text node of the paragraph.\<close>

definition world_selection :: Selection where
  "world_selection =
     \<lparr> isCollapsed = False,
       ranges = [\<lparr> startContainer = [1, 0, 2], startOffset_r = 1,
                  endContainer = [1, 0, 2], endOffset_r = 6 \<rparr>],
       toString = ''world'' \<rparr>"

definition sample_environment :: environment where
  "sample_environment =
     \<lparr> location_href = ''https://example.org/'', random_id = ''k3j9x0q1z'', now = 1700000000000,
       selectedColor = ''#fef08a'' \<rparr>"

definition world_record :: Highlight where
  "world_record =
     \<lparr> id_h = ''k3j9x0q1z'', url = ''https://example.org/'', text_h = ''world'', note_h = [],
       startOffset = 1, endOffset = 6, xpath = ''/html[1]/body[1]/p[1]'',
       timestamp = 1700000000000, color = Some ''#fef08a'' \<rparr>"

text \<open>A selection that starts in the first text node of the paragraph and ends in the last.\<close>

definition spanning_selection :: Selection where
  "spanning_selection =
     \<lparr> isCollapsed = False,
       ranges = [\<lparr> startContainer = [1, 0, 0], startOffset_r = 0,
                  endContainer = [1, 0, 2], endOffset_r = 6 \<rparr>],
       toString = ''Hello big world'' \<rparr>"

section \<open>Properties of the highlight store\<close>




lemma getAll_setItem:
  "getAll (setItem (Serialized hs) st) = Inr (Highlights hs)"
  by (simp add: getAll_def setItem_def)

lemma getAll_empty_storage: "getAll empty_storage = Inr (Highlights [])"
  by (simp add: getAll_def empty_storage_def)

lemma of_json_to_json: "of_json (to_json h) = Some h"
  by (cases "color h")
     (auto simp: to_json_def string_field_def int_field_def required_keys_def)

lemma all_of_json_map: "all_of_json (map to_json hs) = Some hs"
  by (induction hs) (simp_all add: of_json_to_json)

lemma classify_to_json: "classify (JArray (map to_json hs)) = Highlights hs"
  by (simp add: classify_def all_of_json_map)

lemma getAll_json_text:
  "getAll \<lparr> slot = Some (OtherJSON (JArray (map to_json hs))), setItem_calls = n \<rparr> =
   getAll \<lparr> slot = Some (Serialized hs), setItem_calls = n \<rparr>"
  by (simp add: getAll_def classify_to_json)

lemma spread_id: "p_id u = None \<Longrightarrow> id_h (spread h u) = id_h h"
  by (simp add: spread_def)

lemma map_id_update:
  assumes "p_id u = None"
  shows "map id_h (hs[k := spread (hs ! k) u]) = map id_h hs"
proof (cases "k < length hs")
  case True
  then show ?thesis
    using assms by (simp add: map_update spread_id list_update_same_conv)
next
  case False
  then show ?thesis by (simp add: list_update_beyond)
qed

lemma store_step_ids:
  assumes "carries_no_id x" "getAll st = Inr (Highlights hs)"
  shows "\<exists>st' hs'. store_step x st = Inr st' \<and> getAll st' = Inr (Highlights hs') \<and>
           map id_h hs' = ids_step x (map id_h hs)"
proof (cases x)
  case (Save h)
  then show ?thesis using assms by (simp add: save_def getAll_setItem)
next
  case (Delete i)
  then show ?thesis
    using assms by (simp add: delete_def getAll_setItem filter_map comp_def)
next
  case (Update i u)
  then show ?thesis
    using assms by (auto simp: update_def getAll_setItem Let_def map_id_update)
qed

subsection \<open>C6: reading a corrupt store\<close>

text \<open>
  C6 says that \<^verbatim>\<open>getAll\<close> returns an empty collection when the stored payload is not
  valid serialized data, and never throws. The code is
  \<^verbatim>\<open>data ? JSON.parse(data) : []\<close> with no \<^verbatim>\<open>try\<close>: on a stored string that is not
  JSON text, the \<^verbatim>\<open>SyntaxError\<close> of \<^verbatim>\<open>JSON.parse\<close> leaves \<^verbatim>\<open>getAll\<close>.
\<close>

theorem getAll_malformed_throws:
  "getAll \<lparr> slot = Some (Malformed ''{not json''), setItem_calls = 0 \<rparr> = Inl SyntaxError"
  by (simp add: getAll_def)

text \<open>
  C6, as the code has it: \<^verbatim>\<open>getAll\<close> returns the empty collection when nothing is
  stored under the key or when the stored string is empty. When the stored string is
  JSON text it returns the parsed value, whatever that is: the stored list when the
  text is the serialization of one, and any other value (\<^verbatim>\<open>null\<close>, an object, a
  number, an array of other things) as it is, not an empty collection. It throws
  exactly when the stored string is non-empty and not JSON text.
\<close>

theorem getAll_fails_only_on_malformed:
  "(slot st = None \<longrightarrow> getAll st = Inr (Highlights [])) \<and>
   (slot st = Some (Malformed []) \<longrightarrow> getAll st = Inr (Highlights [])) \<and>
   (slot st = Some (Serialized hs) \<longrightarrow> getAll st = Inr (Highlights hs)) \<and>
   (slot st = Some (OtherJSON v) \<longrightarrow>
      getAll st = Inr (classify v) \<and> ((\<forall>vs. v \<noteq> JArray vs) \<longrightarrow> getAll st = Inr (Other v))) \<and>
   ((\<exists>e. getAll st = Inl e) \<longleftrightarrow> (\<exists>s. s \<noteq> [] \<and> slot st = Some (Malformed s)))"
  by (cases "slot st"; cases "the (slot st)"; cases v)
     (auto simp: getAll_def classify_def)

theorem getAll_fails_only_on_malformed_witness:
  "getAll empty_storage = Inr (Highlights []) \<and>
   getAll \<lparr> slot = Some (Malformed []), setItem_calls = 0 \<rparr> = Inr (Highlights []) \<and>
   getAll \<lparr> slot = Some (Serialized [sample_highlight]), setItem_calls = 0 \<rparr> =
     Inr (Highlights [sample_highlight]) \<and>
   getAll \<lparr> slot = Some (OtherJSON JNull), setItem_calls = 0 \<rparr> = Inr (Other JNull) \<and>
   getAll \<lparr> slot = Some (OtherJSON (JObject [])), setItem_calls = 0 \<rparr> = Inr (Other (JObject [])) \<and>
   getAll \<lparr> slot = Some (OtherJSON (JNumber 42)), setItem_calls = 0 \<rparr> = Inr (Other (JNumber 42)) \<and>
   getAll \<lparr> slot = Some (OtherJSON (JArray [JNull])), setItem_calls = 0 \<rparr> =
     Inr (Other (JArray [JNull])) \<and>
   \<not> (\<exists>e. getAll \<lparr> slot = Some (OtherJSON JNull), setItem_calls = 0 \<rparr> = Inl e) \<and>
   (\<exists>e. getAll \<lparr> slot = Some (Malformed ''{not json''), setItem_calls = 0 \<rparr> = Inl e)"
  using getAll_fails_only_on_malformed [of empty_storage "[]" JNull]
    getAll_fails_only_on_malformed
      [of "\<lparr> slot = Some (Malformed []), setItem_calls = 0 \<rparr>" "[]" JNull]
    getAll_fails_only_on_malformed
      [of "\<lparr> slot = Some (Serialized [sample_highlight]), setItem_calls = 0 \<rparr>"
          "[sample_highlight]" JNull]
    getAll_fails_only_on_malformed
      [of "\<lparr> slot = Some (OtherJSON JNull), setItem_calls = 0 \<rparr>" "[]" JNull]
    getAll_fails_only_on_malformed
      [of "\<lparr> slot = Some (OtherJSON (JObject [])), setItem_calls = 0 \<rparr>" "[]" "JObject []"]
    getAll_fails_only_on_malformed
      [of "\<lparr> slot = Some (OtherJSON (JNumber 42)), setItem_calls = 0 \<rparr>" "[]" "JNumber 42"]
    getAll_fails_only_on_malformed
      [of "\<lparr> slot = Some (OtherJSON (JArray [JNull])), setItem_calls = 0 \<rparr>" "[]"
          "JArray [JNull]"]
    getAll_fails_only_on_malformed
      [of "\<lparr> slot = Some (Malformed ''{not json''), setItem_calls = 0 \<rparr>" "[]" JNull]
  by (simp add: empty_storage_def classify_def)

subsection \<open>C8: the id of a stored record\<close>

text \<open>
  C8 says that \<^verbatim>\<open>update\<close> never alters the id of the record it merges into. The
  merge is the object spread of all the fields of a \<^verbatim>\<open>Partial<Highlight>\<close>, and
  \<^verbatim>\<open>id\<close> is one of them: an update that carries an id overwrites the stored one.
\<close>

theorem update_can_overwrite_id:
  "update ''a'' (no_fields\<lparr> p_id := Some ''b'' \<rparr>)
     \<lparr> slot = Some (Serialized [sample_highlight]), setItem_calls = 0 \<rparr>
   = Inr \<lparr> slot = Some (Serialized [sample_highlight\<lparr> id_h := ''b'' \<rparr>]),
           setItem_calls = 1 \<rparr>"
  by (simp add: update_def getAll_def setItem_def spread_def
        sample_highlight_def no_fields_def)

text \<open>
  C8, as the code has it: along every sequence of store operations (save, delete,
  update) whose updates carry no \<^verbatim>\<open>id\<close> field, as the note edit of the tooltip does,
  no stored record changes its id. Starting from a readable store the sequence runs
  to its end, and the list of the ids in the store moves only by the append of a save
  and the filter of a delete; an update leaves every id in place.
\<close>

theorem id_unchanged_by_edits:
  assumes "list_all carries_no_id ops" and "getAll st = Inr (Highlights hs)"
  shows "\<exists>st' hs'. run_ops ops st = Inr st' \<and> getAll st' = Inr (Highlights hs') \<and>
           map id_h hs' = ids_after ops (map id_h hs)"
  using assms
proof (induction ops arbitrary: st hs)
  case Nil
  then show ?case by simp
next
  case (Cons x ops)
  from Cons.prems obtain st1 hs1 where
    s: "store_step x st = Inr st1" "getAll st1 = Inr (Highlights hs1)"
       "map id_h hs1 = ids_step x (map id_h hs)"
    using store_step_ids [of x st hs] by auto
  from Cons.IH [of st1 hs1] Cons.prems s show ?case by simp
qed

theorem id_unchanged_by_edits_witness:
  "list_all carries_no_id
     [Save sample_highlight, Update ''a'' (no_fields\<lparr> p_note := Some ''n'' \<rparr>), Delete ''b''] \<and>
   getAll empty_storage = Inr (Highlights []) \<and>
   (\<exists>st' hs'.
      run_ops [Save sample_highlight, Update ''a'' (no_fields\<lparr> p_note := Some ''n'' \<rparr>),
               Delete ''b''] empty_storage = Inr st' \<and>
      getAll st' = Inr (Highlights hs') \<and> map id_h hs' = [''a''])"
proof -
  have a: "list_all carries_no_id
     [Save sample_highlight, Update ''a'' (no_fields\<lparr> p_note := Some ''n'' \<rparr>), Delete ''b'']"
    by (simp add: no_fields_def)
  have b: "getAll empty_storage = Inr (Highlights [])"
    by (rule getAll_empty_storage)
  show ?thesis
    using a b id_unchanged_by_edits [OF a b] by (simp add: sample_highlight_def)
qed

subsection \<open>C10: records that share an id\<close>



section \<open>Properties of the document operations\<close>

lemma substring_parts:
  assumes "0 \<le> s" "s \<le> e" "e \<le> int (length c)"
  shows "substring c 0 s = take (nat s) c"
    and "substring c s e = take (nat (e - s)) (drop (nat s) c)"
    and "substring_from c e = drop (nat e) c"
  using assms by (simp_all add: substring_def substring_from_def Let_def min_def max_def)

lemma substring_concat:
  assumes "0 \<le> s" "s \<le> e" "e \<le> int (length c)"
  shows "substring c 0 s @ substring c s e @ substring_from c e = c"
proof -
  have "nat (e - s) + nat s = nat e" using assms by simp
  then have "drop (nat e) c = drop (nat (e - s)) (drop (nat s) c)"
    by simp
  then have "substring c 0 s @ substring c s e @ substring_from c e =
      take (nat s) c @ take (nat (e - s)) (drop (nat s) c) @ drop (nat (e - s)) (drop (nat s) c)"
    using substring_parts(1) [OF assms] substring_parts(2) [OF assms]
      substring_parts(3) [OF assms] by simp
  also have "\<dots> = c"
    by (simp only: append_take_drop_id)
  finally show ?thesis .
qed

lemma textContent_descendant: "textContent (Element e ks) = descendant_text (Element e ks)"
  by simp

lemma walk_paths:
  "(q, c) \<in> set (walk_node n) \<Longrightarrow> node_at n q = Some (Text c)"
  "(q, c) \<in> set (walk_children i ks) \<Longrightarrow>
     \<exists>j r. q = (i + j) # r \<and> j < length ks \<and> node_at (ks ! j) r = Some (Text c)"
proof (induction n and i ks arbitrary: q and q rule: walk_node_walk_children.induct)
  case (5 i k ks)
  from "5.prems" have "(\<exists>r. q = i # r \<and> (r, c) \<in> set (walk_node k))
      \<or> (q, c) \<in> set (walk_children (Suc i) ks)" by auto
  then show ?case
  proof
    assume "\<exists>r. q = i # r \<and> (r, c) \<in> set (walk_node k)"
    then obtain r where r: "q = i # r" "(r, c) \<in> set (walk_node k)" by blast
    with "5.IH"(1) have "node_at k r = Some (Text c)" by simp
    with r show ?thesis by (intro exI [of _ 0] exI [of _ r]) simp
  next
    assume "(q, c) \<in> set (walk_children (Suc i) ks)"
    with "5.IH"(2) obtain j r where "q = (Suc i + j) # r" "j < length ks"
      "node_at (ks ! j) r = Some (Text c)" by blast
    then show ?thesis by (intro exI [of _ "Suc j"] exI [of _ r]) simp
  qed
next
  case (3 e ks)
  from "3.prems" have "(q, c) \<in> set (walk_children 0 ks)" by simp
  from "3.IH" [OF this] obtain j r where
    "q = j # r" "j < length ks" "node_at (ks ! j) r = Some (Text c)" by auto
  then show ?case by simp
qed auto

lemma textNodes_paths:
  assumes "(q, c) \<in> set (textNodes n)"
  shows "q \<noteq> [] \<and> node_at n q = Some (Text c)"
proof (cases n)
  case (Element e ks)
  with assms walk_paths(2) [of q c 0 ks] show ?thesis by auto
qed (use assms in auto)

lemma node_at_append:
  "node_at n p = Some m \<Longrightarrow> node_at n (p @ q) = node_at m q"
  by (induction n p rule: node_at.induct) (auto split: if_splits)

lemma concat_splice:
  assumes "i < length ks" "concat (map f new) = f (ks ! i)"
  shows "concat (map f (take i ks @ new @ drop (Suc i) ks)) = concat (map f ks)"
proof -
  have "ks = take i ks @ ks ! i # drop (Suc i) ks"
    using assms(1) by (simp add: id_take_nth_drop)
  then have "concat (map f ks) = concat (map f (take i ks)) @ f (ks ! i) @ concat (map f (drop (Suc i) ks))"
    by (metis concat.simps(2) concat_append list.simps(9) map_append)
  then show ?thesis using assms(2) by simp
qed

lemma concat_update:
  assumes "f x = f (ks ! i)"
  shows "concat (map f (ks[i := x])) = concat (map f ks)"
proof -
  have "map f (ks[i := x]) = map f ks"
    using assms by (metis list_update_id map_update)
  then show ?thesis by simp
qed

lemma splice_text:
  "node_at n q = Some t \<Longrightarrow> q \<noteq> [] \<Longrightarrow> concat (map descendant_text new) = descendant_text t \<Longrightarrow>
   descendant_text (splice n q new) = descendant_text n"
proof (induction n q new rule: splice.induct)
  case (2 e ks i new)
  then have i: "i < length ks" and t: "t = ks ! i"
    by (auto split: if_splits)
  from 2 t have "concat (map descendant_text new) = descendant_text (ks ! i)" by simp
  from concat_splice [OF i this] i show ?case by simp
next
  case (3 e ks i j p new)
  then have i: "i < length ks" and t: "node_at (ks ! i) (j # p) = Some t"
    by (auto split: if_splits)
  from "3.IH" [OF i t] "3.prems" have
    "descendant_text (splice (ks ! i) (j # p) new) = descendant_text (ks ! i)" by simp
  from concat_update [of descendant_text, OF this] i show ?case by simp
qed auto

lemma pieces_text:
  "s \<le> e \<Longrightarrow> concat (map descendant_text (pieces h content s e)) = content"
proof -
  assume "s \<le> e"
  then have "drop e content = drop (e - s) (drop s content)" by simp
  then have "take s content @ take (e - s) (drop s content) @ drop e content = content"
    by (simp only: append_take_drop_id)
  then show ?thesis by (auto simp: pieces_def marker_def)
qed

lemma scan_Some:
  assumes "scan h off ws = Some (q, new)" and "startOffset h \<le> endOffset h"
  shows "\<exists>pre content post.
           ws = pre @ (q, content) # post \<and>
           off + int (length (concat (map snd pre))) \<le> startOffset h \<and>
           endOffset h \<le> off + int (length (concat (map snd pre))) + int (length content) \<and>
           startOffset h < endOffset h \<and>
           new = pieces h content
                   (nat (startOffset h - (off + int (length (concat (map snd pre))))))
                   (nat (endOffset h - (off + int (length (concat (map snd pre))))))"
  using assms(1)
proof (induction ws arbitrary: off)
  case Nil
  then show ?case by simp
next
  case (Cons w ws)
  obtain p c where w: "w = (p, c)" by (cases w)
  show ?case
  proof (cases "off \<le> startOffset h \<and> endOffset h \<le> off + int (length c)")
    case True
    let ?s = "startOffset h - off" and ?e = "endOffset h - off"
    have b: "0 \<le> ?s" "?s \<le> ?e" "?e \<le> int (length c)"
      using True assms(2) by auto
    from Cons.prems w True have hl: "substring c ?s ?e \<noteq> []"
      and q: "q = p"
      and new: "new = (if substring c 0 ?s \<noteq> [] then [Text (substring c 0 ?s)] else [])
                  @ [marker h (substring c ?s ?e)]
                  @ (if substring_from c ?e \<noteq> [] then [Text (substring_from c ?e)] else [])"
      by (auto simp: Let_def split: if_splits)
    from hl b have lt: "startOffset h < endOffset h"
      by (auto simp: substring_parts(2) [OF b])
    have n: "nat ?e - nat ?s = nat (?e - ?s)" using b by simp
    from new have "new = pieces h c (nat ?s) (nat ?e)"
      unfolding pieces_def substring_parts(1) [OF b] substring_parts(2) [OF b]
        substring_parts(3) [OF b] n by simp
    with True lt q w show ?thesis
      by (intro exI [of _ "[]"] exI [of _ c] exI [of _ ws]) simp
  next
    case False
    with Cons.prems w have "scan h (off + int (length c)) ws = Some (q, new)"
      by (auto simp: Let_def)
    from Cons.IH [OF this] obtain pre content post where
      r: "ws = pre @ (q, content) # post"
         "off + int (length c) + int (length (concat (map snd pre))) \<le> startOffset h"
         "endOffset h \<le> off + int (length c) + int (length (concat (map snd pre))) + int (length content)"
         "startOffset h < endOffset h"
         "new = pieces h content
                   (nat (startOffset h - (off + int (length c) + int (length (concat (map snd pre))))))
                   (nat (endOffset h - (off + int (length c) + int (length (concat (map snd pre))))))"
      by blast
    show ?thesis
      using r w by (intro exI [of _ "w # pre"] exI [of _ content] exI [of _ post])
        (simp add: add.assoc)
  qed
qed

lemma splice_step:
  "r \<noteq> [] \<Longrightarrow> splice (Element e ks) (i # r) new =
     (if i < length ks then Element e (ks[i := splice (ks ! i) r new]) else Element e ks)"
  by (cases r) simp_all

lemma node_at_splice:
  "node_at n p = Some m \<Longrightarrow> q \<noteq> [] \<Longrightarrow>
   node_at (splice n (p @ q) new) p = Some (splice m q new)"
proof (induction n p rule: node_at.induct)
  case (1 n)
  then show ?case by simp
next
  case (2 e ks i p)
  then have i: "i < length ks" and m: "node_at (ks ! i) p = Some m"
    by (auto split: if_splits)
  from "2.prems" have "p @ q \<noteq> []" by simp
  from splice_step [OF this] i
  have "splice (Element e ks) ((i # p) @ q) new = Element e (ks[i := splice (ks ! i) (p @ q) new])"
    by simp
  with "2.IH" [OF i m "2.prems"(2)] i show ?case by simp
qed simp_all

lemma splice_textContent:
  assumes "node_at n q = Some t" "q \<noteq> []" "concat (map descendant_text new) = descendant_text t"
  shows "textContent (splice n q new) = textContent n"
proof (cases n)
  case (Element e ks)
  have "descendant_text (splice n q new) = descendant_text n"
    using assms by (rule splice_text)
  moreover have "\<exists>ks'. splice (Element e ks) q new = Element e ks'"
    by (induction "Element e ks" q new rule: splice.induct) auto
  ultimately show ?thesis using Element by auto
next
  case (Text s)
  with assms show ?thesis by (cases q) auto
next
  case (Comment c)
  with assms show ?thesis by (cases q) auto
qed

lemma highlight_in_text_node:
  assumes "node_at doc p = Some el"
    and "scan h 0 (textNodes el) = Some (q, new)"
    and "startOffset h \<le> endOffset h"
  shows "\<exists>pre content post.
           textNodes el = pre @ (q, content) # post \<and>
           node_at doc (p @ q) = Some (Text content) \<and>
           int (length (concat (map snd pre))) \<le> startOffset h \<and>
           startOffset h < endOffset h \<and>
           endOffset h \<le> int (length (concat (map snd pre))) + int (length content) \<and>
           new = pieces h content
                   (nat (startOffset h - int (length (concat (map snd pre)))))
                   (nat (endOffset h - int (length (concat (map snd pre))))) \<and>
           highlightTextInElement doc p h = splice doc (p @ q) new \<and>
           node_at (highlightTextInElement doc p h) p = Some (splice el q new) \<and>
           textContent (splice el q new) = textContent el \<and>
           textContent (highlightTextInElement doc p h) = textContent doc"
proof -
  from scan_Some [OF assms(2,3)] obtain pre content post where
    w: "textNodes el = pre @ (q, content) # post"
    and lo: "int (length (concat (map snd pre))) \<le> startOffset h"
    and lt: "startOffset h < endOffset h"
    and hi: "endOffset h \<le> int (length (concat (map snd pre))) + int (length content)"
    and new: "new = pieces h content
                   (nat (startOffset h - int (length (concat (map snd pre)))))
                   (nat (endOffset h - int (length (concat (map snd pre)))))"
    by auto
  from w have "(q, content) \<in> set (textNodes el)" by simp
  then have q: "q \<noteq> []" and t: "node_at el q = Some (Text content)"
    using textNodes_paths by blast+
  from node_at_append [OF assms(1)] t
  have t': "node_at doc (p @ q) = Some (Text content)" by simp
  have c: "concat (map descendant_text new) = descendant_text (Text content)"
    using lt new by (simp add: pieces_text)
  have r: "highlightTextInElement doc p h = splice doc (p @ q) new"
    using assms(1,2) by (simp add: highlightTextInElement_def)
  have 1: "node_at (highlightTextInElement doc p h) p = Some (splice el q new)"
    unfolding r using assms(1) q by (rule node_at_splice)
  have 2: "textContent (splice el q new) = textContent el"
    using t q c by (rule splice_textContent)
  have 3: "textContent (highlightTextInElement doc p h) = textContent doc"
    unfolding r using t' _ c by (rule splice_textContent) (use q in simp)
  from w t' lo lt hi new r 1 2 3 show ?thesis by blast
qed




subsection \<open>Removing the highlights\<close>

lemma normalize_nodes_text:
  "concat (map descendant_text (normalize_nodes ks)) = concat (map descendant_text ks)"
proof (induction ks rule: normalize_nodes.induct)
  case (2 s rest)
  then show ?case
    by (cases "normalize_nodes rest"; cases "hd (normalize_nodes rest)") auto
qed auto

lemma normalize_nodes_count:
  "sum_list (map count_highlights (normalize_nodes ks)) = sum_list (map count_highlights ks)"
proof (induction ks rule: normalize_nodes.induct)
  case (2 s rest)
  then show ?case
    by (cases "normalize_nodes rest"; cases "hd (normalize_nodes rest)") auto
qed auto

lemma normalize_text: "descendant_text (normalize n) = descendant_text n"
  by (cases n) (simp_all add: normalize_nodes_text)

lemma normalize_count: "count_highlights (normalize n) = count_highlights n"
  by (cases n) (simp_all add: normalize_nodes_count)

lemma sum_list_update:
  assumes "f x = f (ks ! i)"
  shows "sum_list (map f (ks[i := x])) = sum_list (map f ks)"
proof -
  have "map f (ks[i := x]) = map f ks"
    using assms by (metis list_update_id map_update)
  then show ?thesis by simp
qed

lemma normalize_at_text: "descendant_text (normalize_at n p) = descendant_text n"
proof (induction n p rule: normalize_at.induct)
  case (1 n)
  then show ?case by (simp add: normalize_text)
next
  case (2 e ks i p)
  then show ?case by (simp add: concat_update)
qed simp_all

lemma normalize_at_count: "count_highlights (normalize_at n p) = count_highlights n"
proof (induction n p rule: normalize_at.induct)
  case (1 n)
  then show ?case by (simp add: normalize_count)
next
  case (2 e ks i p)
  then show ?case by (simp add: sum_list_update)
qed simp_all

lemma normalize_root: "is_highlight (normalize n) = is_highlight n"
  by (cases n) simp_all

lemma normalize_at_root: "is_highlight (normalize_at n p) = is_highlight n"
  by (induction n p rule: normalize_at.induct) (simp_all add: normalize_root)

lemma splice_root: "is_highlight (splice n p new) = is_highlight n"
  by (induction n p new rule: splice.induct) auto

lemma normalize_at_textContent: "textContent (normalize_at n p) = textContent n"
proof (cases n)
  case (Element e ks)
  have "\<exists>ks'. normalize_at (Element e ks) p = Element e ks'"
    by (cases p) auto
  with normalize_at_text [of n p] Element show ?thesis by auto
next
  case (Text s)
  then show ?thesis by (cases p) auto
next
  case (Comment c)
  then show ?thesis by (cases p) auto
qed

lemma sum_list_splice:
  fixes f :: "'a \<Rightarrow> nat"
  assumes "i < length ks"
  shows "sum_list (map f (take i ks @ new @ drop (Suc i) ks)) + f (ks ! i) =
         sum_list (map f ks) + sum_list (map f new)"
proof -
  have "ks = take i ks @ ks ! i # drop (Suc i) ks"
    using assms by (simp add: id_take_nth_drop)
  then have "sum_list (map f ks) =
      sum_list (map f (take i ks)) + f (ks ! i) + sum_list (map f (drop (Suc i) ks))"
    by (metis add.assoc list.simps(9) map_append sum_list.Cons sum_list.append)
  then show ?thesis by simp
qed

lemma sum_list_update_nat:
  fixes f :: "'a \<Rightarrow> nat"
  assumes "i < length ks"
  shows "sum_list (map f (ks[i := x])) + f (ks ! i) = sum_list (map f ks) + f x"
proof -
  have "ks[i := x] = take i ks @ [x] @ drop (Suc i) ks"
    using assms by (simp add: upd_conv_take_nth_drop)
  with sum_list_splice [OF assms, of f "[x]"] show ?thesis by simp
qed

lemma splice_count:
  "node_at n q = Some t \<Longrightarrow> q \<noteq> [] \<Longrightarrow>
   count_highlights (splice n q new) + count_highlights t =
   count_highlights n + sum_list (map count_highlights new)"
proof (induction n q new rule: splice.induct)
  case (2 e ks i new)
  then have i: "i < length ks" and t: "t = ks ! i"
    by (auto split: if_splits)
  from sum_list_splice [OF i, of count_highlights new] i t show ?case by simp
next
  case (3 e ks i j p new)
  then have i: "i < length ks" and t: "node_at (ks ! i) (j # p) = Some t"
    by (auto split: if_splits)
  from "3.IH" [OF i t] have
    "count_highlights (splice (ks ! i) (j # p) new) + count_highlights t =
     count_highlights (ks ! i) + sum_list (map count_highlights new)" by simp
  with sum_list_update_nat [OF i, of count_highlights "splice (ks ! i) (j # p) new"] i
  show ?case by simp
qed auto

lemma first_highlight_node:
  "first_highlight n = Some p \<Longrightarrow> \<exists>el. node_at n p = Some el \<and> is_highlight el"
  "first_highlight_in i ks = Some q \<Longrightarrow>
     \<exists>j r el. q = (i + j) # r \<and> j < length ks \<and> node_at (ks ! j) r = Some el \<and> is_highlight el"
proof (induction n and i ks arbitrary: p and q rule: first_highlight_first_highlight_in.induct)
  case (1 e ks)
  show ?case
  proof (cases "HIGHLIGHT_CLASS \<in> set (classList e)")
    case True
    with "1.prems" show ?thesis by simp
  next
    case False
    with "1.prems" have "first_highlight_in 0 ks = Some p" by simp
    from "1.IH" [OF False this] obtain j r el where
      "p = j # r" "j < length ks" "node_at (ks ! j) r = Some el" "is_highlight el" by auto
    then show ?thesis by simp
  qed
next
  case (5 i k ks)
  show ?case
  proof (cases "first_highlight k")
    case None
    with "5.prems" have "first_highlight_in (Suc i) ks = Some q" by simp
    from "5.IH"(2) [OF None this] obtain j r el where
      "q = (Suc i + j) # r" "j < length ks" "node_at (ks ! j) r = Some el" "is_highlight el"
      by blast
    then show ?thesis by (intro exI [of _ "Suc j"] exI [of _ r] exI [of _ el]) simp
  next
    case (Some r)
    with "5.prems" have q: "q = i # r" by simp
    from "5.IH"(1) [OF Some] obtain el where "node_at k r = Some el" "is_highlight el" by blast
    with q show ?thesis by (intro exI [of _ 0] exI [of _ r] exI [of _ el]) simp
  qed
qed simp_all

lemma first_highlight_None:
  "first_highlight n = None \<Longrightarrow> count_highlights n = 0"
  "first_highlight_in i ks = None \<Longrightarrow> sum_list (map count_highlights ks) = 0"
  by (induction n and i ks rule: first_highlight_first_highlight_in.induct)
     (auto split: if_splits option.splits)

lemma is_highlight_count: "is_highlight el \<Longrightarrow> 0 < count_highlights el"
  by (cases el) auto

lemma is_highlight_first: "is_highlight n \<longleftrightarrow> first_highlight n = Some []"
proof (cases n)
  case (Element e ks)
  have "first_highlight_in 0 ks \<noteq> Some []"
    using first_highlight_node(2) [of 0 ks "[]"] by auto
  with Element show ?thesis by auto
qed simp_all

lemma unwind_first_props:
  assumes "unwind_first doc = Inr d"
  shows "textContent d = textContent doc \<and> is_highlight d = is_highlight doc \<and>
         (count_highlights d < count_highlights doc \<or> (count_highlights doc = 0 \<and> d = doc))"
proof (cases "first_highlight doc")
  case None
  with assms have "d = doc" by (simp add: unwind_first_def)
  with first_highlight_None(1) [OF None] show ?thesis by simp
next
  case (Some p)
  from first_highlight_node(1) [OF Some] obtain el where
    el: "node_at doc p = Some el" "is_highlight el" by blast
  from assms Some el have p: "p \<noteq> []"
    and d: "d = normalize_at (splice doc p [Text (textContent el)]) (butlast p)"
    by (auto simp: unwind_first_def split: if_splits)
  from el(2) have tc: "textContent el = descendant_text el" by (cases el) auto
  have "textContent (splice doc p [Text (textContent el)]) = textContent doc"
    using el(1) p by (rule splice_textContent) (simp add: tc)
  then have 1: "textContent d = textContent doc"
    by (simp add: d normalize_at_textContent)
  have 2: "is_highlight d = is_highlight doc"
    by (simp add: d normalize_at_root splice_root)
  from splice_count [OF el(1) p, of "[Text (textContent el)]"] is_highlight_count [OF el(2)]
  have "count_highlights d < count_highlights doc"
    by (simp add: d normalize_at_count)
  with 1 2 show ?thesis by simp
qed

lemma unwind_first_total:
  "\<not> is_highlight doc \<Longrightarrow> \<exists>d. unwind_first doc = Inr d"
  by (auto simp: unwind_first_def is_highlight_first split: option.splits)

lemma unwind_props:
  assumes "unwind n doc = Inr d"
  shows "textContent d = textContent doc \<and> is_highlight d = is_highlight doc \<and>
         count_highlights d \<le> count_highlights doc - n"
  using assms
proof (induction n arbitrary: doc)
  case 0
  then show ?case by simp
next
  case (Suc n)
  from Suc.prems obtain d1 where d1: "unwind_first doc = Inr d1" "unwind n d1 = Inr d"
    by (auto split: sum.splits)
  from Suc.IH [OF d1(2)] unwind_first_props [OF d1(1)] show ?case by auto
qed

lemma unwind_total:
  "\<not> is_highlight doc \<Longrightarrow> \<exists>d. unwind n doc = Inr d"
proof (induction n arbitrary: doc)
  case 0
  then show ?case by simp
next
  case (Suc n)
  from unwind_first_total [OF Suc.prems] obtain d1 where d1: "unwind_first doc = Inr d1"
    by blast
  with unwind_first_props [OF d1] Suc.prems Suc.IH [of d1] show ?case by auto
qed

lemma removeHighlights_props:
  assumes "removeHighlights doc = Inr d"
  shows "textContent d = textContent doc" and "count_highlights d = 0" and "\<not> is_highlight d"
proof -
  from unwind_props [of "count_highlights doc" doc d] assms
  show a: "textContent d = textContent doc" and b: "count_highlights d = 0"
    by (simp_all add: removeHighlights_def)
  from b is_highlight_count [of d] show "\<not> is_highlight d" by auto
qed

lemma removeHighlights_total:
  "\<not> is_highlight doc \<Longrightarrow> \<exists>d. removeHighlights doc = Inr d"
  by (simp add: removeHighlights_def unwind_total)

subsection \<open>Restoring a record\<close>

lemma marker_text_field: "marker (h\<lparr> text_h := t \<rparr>) = marker h"
  by (rule ext) (simp add: marker_def)

lemma scan_text_field: "scan (h\<lparr> text_h := t \<rparr>) off ws = scan h off ws"
  by (induction ws arbitrary: off) (auto simp: Let_def marker_text_field)

lemma restore_text_field: "restore other doc (h\<lparr> text_h := t \<rparr>) = restore other doc h"
  by (simp add: restore_def highlightTextInElement_def scan_text_field
      split: sum.splits option.splits)

lemma foldl_restore_text_field:
  "foldl (restore other) doc (map (\<lambda>h. h\<lparr> text_h := t h \<rparr>) hs) = foldl (restore other) doc hs"
  by (induction hs arbitrary: doc) (simp_all add: restore_text_field)

lemma filter_url_text_field:
  "filter (\<lambda>h. url h = u) (map (\<lambda>h. h\<lparr> text_h := t h \<rparr>) hs) =
   map (\<lambda>h. h\<lparr> text_h := t h \<rparr>) (filter (\<lambda>h. url h = u) hs)"
  by (induction hs) simp_all


lemma scan_None_containing:
  "containing h off ws = None \<Longrightarrow> scan h off ws = None"
  by (induction ws arbitrary: off) (auto simp: Let_def)

lemma scan_None_empty:
  "containing h off ws = Some (nodeStart, content) \<Longrightarrow>
   substring content (startOffset h - nodeStart) (endOffset h - nodeStart) = [] \<Longrightarrow>
   scan h off ws = None"
  by (induction ws arbitrary: off) (auto simp: Let_def split: if_splits)

lemma scan_Some_marked:
  "containing h off ws = Some (nodeStart, content) \<Longrightarrow>
   substring content (startOffset h - nodeStart) (endOffset h - nodeStart) \<noteq> [] \<Longrightarrow>
   scan h off ws \<noteq> None"
  by (induction ws arbitrary: off) (auto simp: Let_def split: if_splits)

lemma failure_restore:
  assumes "outcome_of other doc h \<noteq> Marked"
  shows "restore other doc h = doc"
  using assms
  by (auto simp: outcome_of_def restore_def highlightTextInElement_def
        scan_None_containing scan_None_empty
      split: sum.splits option.splits if_splits)


lemma marker_classes:
  "class_tokens [] (HIGHLIGHT_CLASS @ '' cursor-pointer transition-opacity hover:opacity-80'') =
     [HIGHLIGHT_CLASS, ''cursor-pointer'', ''transition-opacity'', ''hover:opacity-80'']"
  by code_simp

lemma marker_ids: "highlight_ids (marker h hl) = [Some (id_h h)]"
  by (simp add: marker_def classList_def marker_classes)

lemma mset_concat_splice:
  assumes "i < length ks"
  shows "mset (concat (map f (take i ks @ new @ drop (Suc i) ks))) + mset (f (ks ! i)) =
         mset (concat (map f ks)) + mset (concat (map f new))"
proof -
  have "ks = take i ks @ ks ! i # drop (Suc i) ks"
    using assms by (simp add: id_take_nth_drop)
  then have "concat (map f ks) =
      concat (map f (take i ks)) @ f (ks ! i) @ concat (map f (drop (Suc i) ks))"
    by (metis concat.simps(2) concat_append list.simps(9) map_append)
  then show ?thesis by simp
qed

lemma mset_concat_update:
  assumes "i < length ks"
  shows "mset (concat (map f (ks[i := x]))) + mset (f (ks ! i)) =
         mset (concat (map f ks)) + mset (f x)"
proof -
  have "ks[i := x] = take i ks @ [x] @ drop (Suc i) ks"
    using assms by (simp add: upd_conv_take_nth_drop)
  with mset_concat_splice [OF assms, of f "[x]"] show ?thesis by simp
qed

lemma mset_exchange:
  fixes A :: "'a multiset"
  assumes "A' + T = A + N" and "U' + A = U + A'"
  shows "U' + T = U + N"
proof (rule multiset_eqI)
  fix x
  from assms(1) have "count (A' + T) x = count (A + N) x" by simp
  moreover from assms(2) have "count (U' + A) x = count (U + A') x" by simp
  ultimately show "count (U' + T) x = count (U + N) x" by simp
qed

lemma splice_ids:
  "node_at n q = Some t \<Longrightarrow> q \<noteq> [] \<Longrightarrow>
   mset (highlight_ids (splice n q new)) + mset (highlight_ids t) =
   mset (highlight_ids n) + mset (concat (map highlight_ids new))"
proof (induction n q new rule: splice.induct)
  case (2 e ks i new)
  then have i: "i < length ks" and t: "t = ks ! i"
    by (auto split: if_splits)
  from mset_concat_splice [OF i, of highlight_ids new] i t show ?case by simp
next
  case (3 e ks i j p new)
  then have i: "i < length ks" and t: "node_at (ks ! i) (j # p) = Some t"
    by (auto split: if_splits)
  from "3.IH" [OF i t] have
    "mset (highlight_ids (splice (ks ! i) (j # p) new)) + mset (highlight_ids t) =
     mset (highlight_ids (ks ! i)) + mset (concat (map highlight_ids new))" by simp
  from mset_exchange [OF this mset_concat_update [OF i, of highlight_ids "splice (ks ! i) (j # p) new"]]
  have "mset (concat (map highlight_ids (ks[i := splice (ks ! i) (j # p) new]))) + mset (highlight_ids t) =
     mset (concat (map highlight_ids ks)) + mset (concat (map highlight_ids new))" .
  with i show ?case by (simp add: ac_simps)
qed auto

lemma scan_shape:
  "scan h off ws = Some (q, new) \<Longrightarrow>
   (\<exists>c. (q, c) \<in> set ws) \<and> concat (map highlight_ids new) = [Some (id_h h)]"
proof (induction ws arbitrary: off)
  case Nil
  then show ?case by simp
next
  case (Cons w ws)
  obtain p c where w: "w = (p, c)" by (cases w)
  show ?case
  proof (cases "off \<le> startOffset h \<and> endOffset h \<le> off + int (length c)")
    case True
    with Cons.prems w show ?thesis
      by (auto simp: Let_def marker_ids split: if_splits)
  next
    case False
    with Cons.prems w have "scan h (off + int (length c)) ws = Some (q, new)"
      by (auto simp: Let_def)
    from Cons.IH [OF this] show ?thesis by auto
  qed
qed

lemma highlight_ids_grow:
  assumes "node_at doc p = Some el" and "scan h 0 (textNodes el) = Some (q, new)"
  shows "mset (highlight_ids (highlightTextInElement doc p h)) =
         mset (highlight_ids doc) + {#Some (id_h h)#}"
proof -
  from scan_shape [OF assms(2)] obtain c where
    c: "(q, c) \<in> set (textNodes el)" and n: "concat (map highlight_ids new) = [Some (id_h h)]"
    by blast
  from textNodes_paths [OF c] have q: "q \<noteq> []" and t: "node_at el q = Some (Text c)"
    by simp_all
  from node_at_append [OF assms(1)] t have t': "node_at doc (p @ q) = Some (Text c)" by simp
  have r: "highlightTextInElement doc p h = splice doc (p @ q) new"
    using assms by (simp add: highlightTextInElement_def)
  from splice_ids [OF t', of new] q n show ?thesis by (simp add: r)
qed

lemma restore_ids:
  "restore other doc h = doc \<or>
   mset (highlight_ids (restore other doc h)) = mset (highlight_ids doc) + {#Some (id_h h)#}"
proof (cases "getElementByXPath other doc (xpath h)")
  case (Inl e)
  then show ?thesis by (simp add: restore_def)
next
  case (Inr r)
  show ?thesis
  proof (cases r)
    case None
    with Inr show ?thesis by (simp add: restore_def)
  next
    case (Some p)
    with Inr have r: "restore other doc h = highlightTextInElement doc p h"
      by (simp add: restore_def)
    show ?thesis
    proof (cases "node_at doc p")
      case None
      then show ?thesis by (simp add: r highlightTextInElement_def)
    next
      case el: (Some el)
      show ?thesis
      proof (cases "scan h 0 (textNodes el)")
        case None
        with el show ?thesis by (simp add: r highlightTextInElement_def)
      next
        case (Some qn)
        obtain q new where "qn = (q, new)" by (cases qn)
        with Some highlight_ids_grow [OF el, of h q new] show ?thesis by (simp add: r)
      qed
    qed
  qed
qed

lemma restore_root: "is_highlight (restore other doc h) = is_highlight doc"
  by (simp add: restore_def highlightTextInElement_def splice_root
      split: sum.splits option.splits)

lemma restore_text:
  assumes "startOffset h \<le> endOffset h"
  shows "textContent (restore other doc h) = textContent doc"
proof -
  have "textContent (highlightTextInElement doc p h) = textContent doc" for p
  proof (cases "node_at doc p")
    case None
    then show ?thesis by (simp add: highlightTextInElement_def)
  next
    case el: (Some el)
    show ?thesis
    proof (cases "scan h 0 (textNodes el)")
      case None
      with el show ?thesis by (simp add: highlightTextInElement_def)
    next
      case (Some qn)
      obtain q new where "qn = (q, new)" by (cases qn)
      with Some highlight_in_text_node [OF el _ assms, of q new] show ?thesis by auto
    qed
  qed
  then show ?thesis
    by (simp add: restore_def split: sum.splits option.splits)
qed

lemma foldl_restore_props:
  "is_highlight (foldl (restore other) doc hs) = is_highlight doc"
  "mset (highlight_ids (foldl (restore other) doc hs)) =
     mset (highlight_ids doc) + mset (map (\<lambda>h. Some (id_h h)) (restored other doc hs))"
  "list_all (\<lambda>h. startOffset h \<le> endOffset h) hs \<Longrightarrow>
     textContent (foldl (restore other) doc hs) = textContent doc"
proof (induction hs arbitrary: doc)
  case Nil
  {
    case 1 show ?case by simp
  next
    case 2 show ?case by simp
  next
    case 3 show ?case by simp
  }
next
  case (Cons h hs)
  {
    case 1
    show ?case by (simp add: Cons.IH(1) restore_root)
  next
    case 2
    from restore_ids [of other doc h] show ?case
      by (auto simp: Cons.IH(2))
  next
    case 3
    then show ?case by (simp add: Cons.IH(3) restore_text)
  }
qed

lemma count_ids: "count_highlights n = length (highlight_ids n)"
  by (induction n rule: count_highlights.induct)
     (simp_all add: length_concat comp_def cong: map_cong)



lemma restore_changes_iff_marked:
  "restore other doc h \<noteq> doc \<longleftrightarrow> outcome_of other doc h = Marked"
proof
  assume "restore other doc h \<noteq> doc"
  then show "outcome_of other doc h = Marked"
    using failure_restore [of other doc h] by blast
next
  assume m: "outcome_of other doc h = Marked"
  then obtain p el nodeStart content where
    x: "getElementByXPath other doc (xpath h) = Inr (Some p)"
    and el: "node_at doc p = Some el"
    and c: "containing h 0 (textNodes el) = Some (nodeStart, content)"
    and s: "substring content (startOffset h - nodeStart) (endOffset h - nodeStart) \<noteq> []"
    by (auto simp: outcome_of_def split: sum.splits option.splits if_splits)
  from scan_Some_marked [OF c s] obtain q new where
    sc: "scan h 0 (textNodes el) = Some (q, new)" by auto
  from x have "restore other doc h = highlightTextInElement doc p h"
    by (simp add: restore_def)
  with highlight_ids_grow [OF el sc]
  have "mset (highlight_ids (restore other doc h)) = mset (highlight_ids doc) + {#Some (id_h h)#}"
    by simp
  then show "restore other doc h \<noteq> doc" by auto
qed

subsection \<open>Documents that \<^verbatim>\<open>normalize\<close> leaves as they are\<close>

lemma normal_normalize: "normal_nodes (normalize_nodes ks)"
proof (induction ks rule: normalize_nodes.induct)
  case (2 s rest)
  show ?case
  proof (cases "s = []")
    case True
    with 2 show ?thesis by simp
  next
    case False
    with 2 have n: "normal_nodes (normalize_nodes rest)" by simp
    show ?thesis
    proof (cases "normalize_nodes rest")
      case Nil
      with False show ?thesis by simp
    next
      case (Cons k r)
      with n False show ?thesis by (cases k) auto
    qed
  qed
qed simp_all

lemma normal_fix: "normal_nodes ks \<Longrightarrow> normalize_nodes ks = ks"
proof (induction ks rule: normalize_nodes.induct)
  case (2 s rest)
  then have "s \<noteq> []" "\<not> starts_with_text rest" "normalize_nodes rest = rest" by auto
  then show ?case by (cases rest; cases "hd rest") auto
qed simp_all

lemma fix_normal: "normalize_nodes ks = ks \<Longrightarrow> normal_nodes ks"
  using normal_normalize [of ks] by simp

lemma normal_iff: "normal_nodes ks \<longleftrightarrow> normalize_nodes ks = ks"
  using normal_fix fix_normal by blast

lemma normalize_nodes_idem: "normalize_nodes (normalize_nodes ks) = normalize_nodes ks"
  by (rule normal_fix) (rule normal_normalize)

lemma normalize_idem: "normalize (normalize n) = normalize n"
  by (cases n) (simp_all add: normalize_nodes_idem)

lemma normalize_nodes_cong_cons:
  "normalize_nodes X = normalize_nodes Y \<Longrightarrow> normalize_nodes (k # X) = normalize_nodes (k # Y)"
  by (cases k) simp_all

lemma normalize_nodes_merge:
  "normalize_nodes (Text s # Text t # X) = normalize_nodes (Text (s @ t) # X)"
  by (auto split: list.splits node.splits)

lemma normalize_nodes_prefix:
  "normalize_nodes A = normalize_nodes B \<Longrightarrow> normalize_nodes (X @ A) = normalize_nodes (X @ B)"
proof (induction X)
  case Nil
  then show ?case by simp
next
  case (Cons k X)
  from normalize_nodes_cong_cons [OF Cons.IH [OF Cons.prems], of k]
  show ?case by simp
qed

lemma normalize_nodes_app_left:
  "normalize_nodes (A @ Y) = normalize_nodes (normalize_nodes A @ Y)"
proof (induction A rule: normalize_nodes.induct)
  case (2 s rest)
  show ?case
  proof (cases "s = []")
    case True
    with 2 show ?thesis by simp
  next
    case False
    with 2 have ih: "normalize_nodes (rest @ Y) = normalize_nodes (normalize_nodes rest @ Y)"
      by simp
    have a: "normalize_nodes ((Text s # rest) @ Y) = normalize_nodes (Text s # normalize_nodes rest @ Y)"
      using normalize_nodes_cong_cons [OF ih, of "Text s"] by simp
    show ?thesis
    proof (cases "starts_with_text (normalize_nodes rest)")
      case True
      then obtain t r where r: "normalize_nodes rest = Text t # r"
        by (cases "normalize_nodes rest"; cases "hd (normalize_nodes rest)") auto
      with False have "normalize_nodes (Text s # rest) = Text (s @ t) # r" by simp
      then show ?thesis
        unfolding a r using normalize_nodes_merge [of s t "r @ Y"] by simp
    next
      case f: False
      with False have "normalize_nodes (Text s # rest) = Text s # normalize_nodes rest"
        by (cases "normalize_nodes rest"; cases "hd (normalize_nodes rest)") auto
      then show ?thesis unfolding a by simp
    qed
  qed
next
  case (4 e ks rest)
  then show ?case by (simp add: normalize_nodes_idem)
qed simp_all

lemma normalize_nodes_suffix:
  "normalize_nodes A = normalize_nodes B \<Longrightarrow> normalize_nodes (A @ Y) = normalize_nodes (B @ Y)"
  using normalize_nodes_app_left [of A Y] normalize_nodes_app_left [of B Y] by simp

lemma normalize_nodes_middle:
  "normalize_nodes A = normalize_nodes B \<Longrightarrow>
   normalize_nodes (X @ A @ Y) = normalize_nodes (X @ B @ Y)"
  by (intro normalize_nodes_prefix normalize_nodes_suffix)

subsection \<open>Unwinding the markers of a normalized document\<close>

lemma unmark_clean: "count_highlights n = 0 \<Longrightarrow> unmark n = n"
proof (induction n rule: count_highlights.induct)
  case (1 e ks)
  then have "\<forall>k\<in>set ks. unmark k = k"
    by (auto split: if_splits)
  then have "map unmark ks = ks" by (simp add: map_idI)
  with 1 show ?case by (auto split: if_splits)
qed simp_all

lemma unmark_highlight: "is_highlight n \<Longrightarrow> unmark n = Text (textContent n)"
  by (cases n) simp_all

lemma unmark_element:
  "HIGHLIGHT_CLASS \<notin> set (classList e) \<Longrightarrow> unmark (Element e ks) = Element e (map unmark ks)"
  by simp

lemma splice_single:
  "i < length ks \<Longrightarrow>
   splice (Element e ks) (i # r) [x] =
     Element e (ks[i := (if r = [] then x else splice (ks ! i) r [x])])"
  by (cases r) (simp_all add: upd_conv_take_nth_drop)

lemma first_highlight_in_Some:
  "first_highlight_in i ks = Some q \<Longrightarrow>
   \<exists>j r. q = (i + j) # r \<and> j < length ks \<and> first_highlight (ks ! j) = Some r"
proof (induction ks arbitrary: i)
  case Nil
  then show ?case by simp
next
  case (Cons k ks)
  show ?case
  proof (cases "first_highlight k")
    case None
    with Cons.prems have "first_highlight_in (Suc i) ks = Some q" by simp
    from Cons.IH [OF this] obtain j r where
      "q = (Suc i + j) # r" "j < length ks" "first_highlight (ks ! j) = Some r" by blast
    then have "q = (i + Suc j) # r \<and> Suc j < length (k # ks) \<and>
               first_highlight ((k # ks) ! Suc j) = Some r" by simp
    then show ?thesis by blast
  next
    case (Some p)
    with Cons.prems have "q = (i + 0) # p \<and> 0 < length (k # ks) \<and>
               first_highlight ((k # ks) ! 0) = Some p" by simp
    then show ?thesis by blast
  qed
qed

lemma first_highlight_step:
  assumes "first_highlight n = Some (j # r)"
  shows "\<exists>e ks. n = Element e ks \<and> HIGHLIGHT_CLASS \<notin> set (classList e) \<and> j < length ks \<and>
           first_highlight (ks ! j) = Some r"
proof (cases n)
  case (Element e ks)
  with assms have h: "HIGHLIGHT_CLASS \<notin> set (classList e)"
    and f: "first_highlight_in 0 ks = Some (j # r)"
    by (auto split: if_splits)
  from first_highlight_in_Some [OF f] Element h show ?thesis by auto
qed (use assms in simp_all)

lemma unmark_unwound:
  "first_highlight n = Some p \<Longrightarrow> p \<noteq> [] \<Longrightarrow> node_at n p = Some el \<Longrightarrow>
   unmark (splice n p [Text (textContent el)]) = unmark n"
proof (induction p arbitrary: n)
  case Nil
  then show ?case by simp
next
  case (Cons j r)
  from first_highlight_step [OF Cons.prems(1)] obtain e ks where
    n: "n = Element e ks" and h: "HIGHLIGHT_CLASS \<notin> set (classList e)"
    and j: "j < length ks" and f: "first_highlight (ks ! j) = Some r" by blast
  from Cons.prems(3) n j have el: "node_at (ks ! j) r = Some el" by simp
  let ?x = "Text (textContent el)"
  let ?c = "if r = [] then ?x else splice (ks ! j) r [?x]"
  have "unmark ?c = unmark (ks ! j)"
  proof (cases "r = []")
    case True
    with f el have "is_highlight el" "ks ! j = el"
      by (simp_all add: is_highlight_first)
    with True show ?thesis by (simp add: unmark_highlight)
  next
    case False
    with Cons.IH [OF f False el] show ?thesis by simp
  qed
  then have "(map unmark ks)[j := unmark ?c] = map unmark ks"
    using j by (simp add: list_update_same_conv)
  then have "map unmark (ks[j := ?c]) = map unmark ks"
    by (simp add: map_update)
  with h show ?case
    unfolding n splice_single [OF j] by simp
qed

lemma normalize_nodes_unmark:
  "normalize_nodes (map unmark (normalize_nodes ks)) = normalize_nodes (map unmark ks)"
proof (induction ks rule: normalize_nodes.induct)
  case 1
  show ?case by simp
next
  case (2 s rest)
  show ?case
  proof (cases "s = []")
    case True
    with 2 show ?thesis by simp
  next
    case False
    with 2 have ih: "normalize_nodes (map unmark (normalize_nodes rest)) =
                     normalize_nodes (map unmark rest)" by simp
    have r: "normalize_nodes (map unmark (Text s # rest)) =
             normalize_nodes (Text s # map unmark (normalize_nodes rest))"
      using normalize_nodes_cong_cons [OF ih [symmetric], of "Text s"] by simp
    show ?thesis
    proof (cases "starts_with_text (normalize_nodes rest)")
      case True
      then obtain t r' where t: "normalize_nodes rest = Text t # r'"
        by (cases "normalize_nodes rest"; cases "hd (normalize_nodes rest)") auto
      with False have "normalize_nodes (Text s # rest) = Text (s @ t) # r'" by simp
      then show ?thesis
        unfolding r t using normalize_nodes_merge [of s t "map unmark r'"] by simp
    next
      case f: False
      with False have "normalize_nodes (Text s # rest) = Text s # normalize_nodes rest"
        by (cases "normalize_nodes rest"; cases "hd (normalize_nodes rest)") auto
      then show ?thesis unfolding r by simp
    qed
  qed
next
  case (3 c rest)
  then show ?case by simp
next
  case (4 e ks rest)
  then show ?case
    using normalize_nodes_cong_cons
      [OF "4.IH"(2), of "Text (concat (map descendant_text ks))"]
    by (simp add: normalize_nodes_text)
qed

lemma normalize_unmark: "normalize (unmark (normalize n)) = normalize (unmark n)"
  by (cases n) (simp_all add: normalize_nodes_unmark normalize_nodes_text)

lemma normalize_nodes_single:
  "normalize a = normalize b \<Longrightarrow> normalize_nodes [a] = normalize_nodes [b]"
  by (cases a; cases b) auto

lemma normalize_nodes_update:
  assumes "i < length ks" "normalize a = normalize (ks ! i)"
  shows "normalize_nodes (ks[i := a]) = normalize_nodes ks"
proof -
  have "normalize_nodes (take i ks @ [a] @ drop (Suc i) ks) =
        normalize_nodes (take i ks @ [ks ! i] @ drop (Suc i) ks)"
    by (rule normalize_nodes_middle) (rule normalize_nodes_single [OF assms(2)])
  then show ?thesis
    using assms(1) by (simp add: upd_conv_take_nth_drop id_take_nth_drop [symmetric])
qed

lemma normalize_at_unmark: "normalize (unmark (normalize_at x q)) = normalize (unmark x)"
proof (induction x q rule: normalize_at.induct)
  case (1 n)
  show ?case by (simp add: normalize_unmark)
next
  case (2 e ks i p)
  show ?case
  proof (cases "i < length ks")
    case False
    then show ?thesis by simp
  next
    case True
    let ?c = "normalize_at (ks ! i) p"
    from 2 True have ih: "normalize (unmark ?c) = normalize (unmark (ks ! i))" by simp
    show ?thesis
    proof (cases "HIGHLIGHT_CLASS \<in> set (classList e)")
      case h: True
      have "concat (map descendant_text (ks[i := ?c])) = concat (map descendant_text ks)"
        by (rule concat_update) (rule normalize_at_text)
      with h True show ?thesis by simp
    next
      case h: False
      have "normalize_nodes ((map unmark ks)[i := unmark ?c]) = normalize_nodes (map unmark ks)"
        using True ih by (intro normalize_nodes_update) simp_all
      with h True show ?thesis by (simp add: map_update)
    qed
  qed
qed simp_all

lemma normalize_iff: "normalize (Element e ks) = Element e ks \<longleftrightarrow> normal_nodes ks"
  by (simp add: normal_iff)

lemma normal_nth: "normal_nodes ks \<Longrightarrow> j < length ks \<Longrightarrow> normalize (ks ! j) = ks ! j"
proof (induction ks arbitrary: j rule: normal_nodes.induct)
  case (2 s rest)
  then show ?case by (cases j) simp_all
next
  case (3 c rest)
  then show ?case by (cases j) simp_all
next
  case (4 e ks rest)
  then show ?case by (cases j) (simp_all add: normal_fix)
qed simp

lemma starts_update:
  "\<not> starts_with_text rest \<Longrightarrow> \<not> starts_with_text (rest[j := Element e c])"
  by (cases rest; cases j; cases "hd rest") auto

lemma normal_update:
  "normal_nodes ks \<Longrightarrow> j < length ks \<Longrightarrow> ks ! j = Element e1 cs \<Longrightarrow> normal_nodes cs' \<Longrightarrow>
   normal_nodes (ks[j := Element e2 cs'])"
proof (induction ks arbitrary: j rule: normal_nodes.induct)
  case (2 s rest)
  then show ?case by (cases j) (simp_all add: starts_update)
next
  case (3 c rest)
  then show ?case by (cases j) simp_all
next
  case (4 e ks rest)
  then show ?case by (cases j) simp_all
qed simp

lemma splice_Element: "\<exists>cs'. splice (Element e cs) p new = Element e cs'"
  by (cases p; cases "tl p") auto

lemma normalize_at_Element: "\<exists>cs'. normalize_at (Element e cs) q = Element e cs'"
  by (cases q) auto

lemma node_at_Element:
  "node_at n (j # r) = Some el \<Longrightarrow> \<exists>e ks. n = Element e ks \<and> j < length ks \<and> node_at (ks ! j) r = Some el"
  by (cases n) (auto split: if_splits)

lemma unwound_normal:
  "normalize doc = doc \<Longrightarrow> p \<noteq> [] \<Longrightarrow> node_at doc p = Some el \<Longrightarrow>
   normalize (normalize_at (splice doc p [x]) (butlast p)) =
   normalize_at (splice doc p [x]) (butlast p)"
proof (induction p arbitrary: doc)
  case Nil
  then show ?case by simp
next
  case (Cons j r)
  from node_at_Element [OF Cons.prems(3)] obtain e ks where
    d: "doc = Element e ks" and j: "j < length ks" and el: "node_at (ks ! j) r = Some el"
    by blast
  from Cons.prems(1) d have nk: "normal_nodes ks" by (simp add: normal_iff)
  show ?case
  proof (cases "r = []")
    case True
    then show ?thesis
      unfolding d splice_single [OF j] by (simp add: normalize_nodes_idem)
  next
    case False
    then obtain j' r' where r: "r = j' # r'" by (cases r) auto
    from node_at_Element [OF el [unfolded r]] obtain e1 cs where
      k: "ks ! j = Element e1 cs" by blast
    let ?c = "normalize_at (splice (ks ! j) r [x]) (butlast r)"
    from normal_nth [OF nk j] Cons.IH [OF _ False el]
    have nc: "normalize ?c = ?c" by simp
    from splice_Element [of e1 cs r "[x]"] obtain cs1 where
      "splice (ks ! j) r [x] = Element e1 cs1" unfolding k by blast
    with normalize_at_Element [of e1 cs1 "butlast r"] obtain cs2 where
      c: "?c = Element e1 cs2" by auto
    from nc c have "normal_nodes cs2" by (simp add: normal_iff)
    from normal_update [OF nk j k this, of e1]
    have "normal_nodes (ks[j := ?c])" by (simp add: c)
    then have "normalize (Element e (ks[j := ?c])) = Element e (ks[j := ?c])"
      by (simp add: normal_iff)
    moreover have "normalize_at (splice doc (j # r) [x]) (butlast (j # r)) = Element e (ks[j := ?c])"
      unfolding d splice_single [OF j] using False j by simp
    ultimately show ?thesis by simp
  qed
qed

lemma unwind_unmark:
  "count_highlights doc \<le> n \<Longrightarrow> \<not> is_highlight doc \<Longrightarrow> normalize doc = doc \<Longrightarrow>
   unwind n doc = Inr (normalize (unmark doc))"
proof (induction n arbitrary: doc)
  case 0
  then show ?case by (simp add: unmark_clean)
next
  case (Suc n)
  show ?case
  proof (cases "first_highlight doc")
    case None
    then have z: "count_highlights doc = 0" by (rule first_highlight_None)
    from None have "unwind_first doc = Inr doc" by (simp add: unwind_first_def)
    with Suc.IH [of doc] Suc.prems z show ?thesis by simp
  next
    case (Some p)
    with Suc.prems(2) have p: "p \<noteq> []" by (auto simp: is_highlight_first)
    from first_highlight_node(1) [OF Some] obtain el where
      el: "node_at doc p = Some el" "is_highlight el" by blast
    let ?d = "normalize_at (splice doc p [Text (textContent el)]) (butlast p)"
    have u: "unwind_first doc = Inr ?d"
      using Some p el by (simp add: unwind_first_def)
    from unwind_first_props [OF u] is_highlight_count [OF el(2)]
      splice_count [OF el(1) p, of "[Text (textContent el)]"]
    have c: "count_highlights ?d < count_highlights doc" and h: "\<not> is_highlight ?d"
      using Suc.prems(2) by auto
    have nd: "normalize ?d = ?d"
      by (rule unwound_normal [OF Suc.prems(3) p el(1)])
    have "normalize (unmark ?d) = normalize (unmark (splice doc p [Text (textContent el)]))"
      by (rule normalize_at_unmark)
    also have "\<dots> = normalize (unmark doc)"
      by (simp add: unmark_unwound [OF Some p el(1)])
    finally have m: "normalize (unmark ?d) = normalize (unmark doc)" .
    from c Suc.prems(1) have "count_highlights ?d \<le> n" by simp
    from Suc.IH [OF this h nd] u m show ?thesis by simp
  qed
qed

lemma removeHighlights_unmark:
  "\<not> is_highlight doc \<Longrightarrow> normalize doc = doc \<Longrightarrow>
   removeHighlights doc = Inr (normalize (unmark doc))"
  by (simp add: removeHighlights_def unwind_unmark)

lemma removeHighlights_root:
  assumes "removeHighlights doc = Inr d"
  shows "is_highlight d = is_highlight doc"
  using unwind_props [of "count_highlights doc" doc d] assms
  by (simp add: removeHighlights_def)


subsection \<open>Restoring into a normalized document\<close>

lemma unmark_text: "descendant_text (unmark n) = descendant_text n"
proof (induction n rule: unmark.induct)
  case (1 e ks)
  show ?case
  proof (cases "HIGHLIGHT_CLASS \<in> set (classList e)")
    case True
    then show ?thesis by simp
  next
    case False
    have "map (descendant_text \<circ> unmark) ks = map descendant_text ks"
      using 1 False by (intro map_cong) simp_all
    then have "concat (map (descendant_text \<circ> unmark) ks) = concat (map descendant_text ks)"
      by (rule arg_cong)
    with False show ?thesis by simp
  qed
qed simp_all

lemma normalize_nodes_texts:
  "\<forall>k\<in>set ks. is_text k \<Longrightarrow>
   normalize_nodes ks = normalize_nodes [Text (concat (map descendant_text ks))]"
proof (induction ks)
  case Nil
  show ?case by simp
next
  case (Cons k ks)
  then obtain s where k: "k = Text s" by (cases k) auto
  from Cons have ih: "normalize_nodes ks = normalize_nodes [Text (concat (map descendant_text ks))]"
    by simp
  from normalize_nodes_cong_cons [OF ih, of "Text s"]
    normalize_nodes_merge [of s "concat (map descendant_text ks)" "[]"]
  show ?case by (simp add: k)
qed

lemma scan_pieces:
  "scan h off ws = Some (q, new) \<Longrightarrow> (\<exists>c. (q, c) \<in> set ws) \<and> marker_pieces h new"
proof (induction ws arbitrary: off)
  case Nil
  then show ?case by simp
next
  case (Cons w ws)
  obtain p content where w: "w = (p, content)" by (cases w)
  show ?case
  proof (cases "off \<le> startOffset h \<and> endOffset h \<le> off + int (length content)")
    case True
    let ?b = "substring content 0 (startOffset h - off)"
    let ?hl = "substring content (startOffset h - off) (endOffset h - off)"
    let ?a = "substring_from content (endOffset h - off)"
    from Cons.prems w True have hl: "?hl \<noteq> []" and q: "q = p"
      and n: "new = (if ?b \<noteq> [] then [Text ?b] else []) @ [marker h ?hl]
                    @ (if ?a \<noteq> [] then [Text ?a] else [])"
      by (simp_all add: Let_def split: if_splits)
    from hl n have "marker_pieces h new"
      unfolding marker_pieces_def by blast
    with q w show ?thesis by auto
  next
    case False
    with Cons.prems w have "scan h (off + int (length content)) ws = Some (q, new)"
      by (simp add: Let_def)
    from Cons.IH [OF this] show ?thesis by auto
  qed
qed

lemma marker_highlight: "is_highlight (marker h hl)"
  by (simp add: marker_def classList_def marker_classes)

lemma marker_unmark: "unmark (marker h hl) = Text hl"
  using marker_highlight [of h hl] by (simp add: unmark_highlight) (simp add: marker_def)

lemma marker_pieces_texts:
  "marker_pieces h new \<Longrightarrow> \<forall>k\<in>set (map unmark new). is_text k"
  by (auto simp: marker_pieces_def marker_unmark)

lemma pieces_unmark:
  assumes "marker_pieces h new" "concat (map descendant_text new) = c"
  shows "normalize_nodes (map unmark new) = normalize_nodes [Text c]"
proof -
  have e: "concat (map descendant_text (map unmark new)) = c"
    using assms(2) by (simp add: comp_def unmark_text)
  from normalize_nodes_texts [OF marker_pieces_texts [OF assms(1)]]
  show ?thesis unfolding e .
qed

lemma splice_unmark:
  "node_at n q = Some (Text c) \<Longrightarrow> q \<noteq> [] \<Longrightarrow>
   normalize_nodes (map unmark new) = normalize_nodes [Text c] \<Longrightarrow>
   concat (map descendant_text new) = c \<Longrightarrow>
   normalize (unmark (splice n q new)) = normalize (unmark n)"
proof (induction q arbitrary: n)
  case Nil
  then show ?case by simp
next
  case (Cons j r)
  from node_at_Element [OF Cons.prems(1)] obtain e ks where
    n: "n = Element e ks" and j: "j < length ks" and t: "node_at (ks ! j) r = Some (Text c)"
    by blast
  show ?case
  proof (cases "HIGHLIGHT_CLASS \<in> set (classList e)")
    case True
    from splice_Element [of e ks "j # r" new] obtain cs where
      s: "splice (Element e ks) (j # r) new = Element e cs" by blast
    have "textContent (splice n (j # r) new) = textContent n"
      by (rule splice_textContent [OF Cons.prems(1)]) (simp_all add: Cons.prems(4))
    with True show ?thesis unfolding n s by simp
  next
    case False
    show ?thesis
    proof (cases "r = []")
      case True
      with t have k: "ks ! j = Text c" by simp
      have "normalize_nodes (map unmark (take j ks) @ map unmark new @ map unmark (drop (Suc j) ks)) =
            normalize_nodes (map unmark (take j ks) @ [Text c] @ map unmark (drop (Suc j) ks))"
        by (rule normalize_nodes_middle) (rule Cons.prems(3))
      also have "map unmark (take j ks) @ [Text c] @ map unmark (drop (Suc j) ks) =
                 map unmark (take j ks @ [ks ! j] @ drop (Suc j) ks)"
        by (simp add: k)
      also have "take j ks @ [ks ! j] @ drop (Suc j) ks = ks"
        using j by (simp add: id_take_nth_drop [symmetric])
      finally show ?thesis
        using False j True unfolding n by simp
    next
      case r: False
      from Cons.IH [OF t r Cons.prems(3,4)]
      have "normalize (unmark (splice (ks ! j) r new)) = normalize (unmark (ks ! j))" .
      then have "normalize_nodes ((map unmark ks)[j := unmark (splice (ks ! j) r new)]) =
                 normalize_nodes (map unmark ks)"
        using j by (intro normalize_nodes_update) simp_all
      with False j show ?thesis
        unfolding n splice_step [OF r] by (simp add: map_update)
    qed
  qed
qed

lemma starts_append: "xs \<noteq> [] \<Longrightarrow> starts_with_text (xs @ zs) = starts_with_text xs"
  by (cases xs; cases "hd xs") auto

lemma normal_pieces:
  "normal_nodes (xs @ Text c # ys) \<Longrightarrow> marker_pieces h new \<Longrightarrow> normal_nodes (xs @ new @ ys)"
proof (induction xs rule: normal_nodes.induct)
  case 1
  then show ?case
    by (auto simp: marker_pieces_def marker_def)
next
  case (2 s rest)
  from "2.prems"(1) have "rest \<noteq> []" by auto
  with 2 show ?case by (simp add: starts_append)
next
  case (3 c' rest)
  then show ?case by simp
next
  case (4 e ks rest)
  then show ?case by simp
qed

lemma splice_normal:
  "normalize n = n \<Longrightarrow> node_at n q = Some (Text c) \<Longrightarrow> q \<noteq> [] \<Longrightarrow> marker_pieces h new \<Longrightarrow>
   normalize (splice n q new) = splice n q new"
proof (induction q arbitrary: n)
  case Nil
  then show ?case by simp
next
  case (Cons j r)
  from node_at_Element [OF Cons.prems(2)] obtain e ks where
    n: "n = Element e ks" and j: "j < length ks" and t: "node_at (ks ! j) r = Some (Text c)"
    by blast
  from Cons.prems(1) n have nk: "normal_nodes ks" by (simp add: normal_iff)
  show ?case
  proof (cases "r = []")
    case True
    with t have k: "ks ! j = Text c" by simp
    have "take j ks @ Text c # drop (Suc j) ks = ks"
      using id_take_nth_drop [OF j] k by simp
    with nk have "normal_nodes (take j ks @ Text c # drop (Suc j) ks)"
      by simp
    from normal_pieces [OF this Cons.prems(4)] True j show ?thesis
      unfolding n by (simp add: normal_iff)
  next
    case False
    then obtain j' r' where r: "r = j' # r'" by (cases r) auto
    from node_at_Element [OF t [unfolded r]] obtain e1 cs where
      k: "ks ! j = Element e1 cs" by blast
    let ?c = "splice (ks ! j) r new"
    from normal_nth [OF nk j] Cons.IH [OF _ t False Cons.prems(4)]
    have nc: "normalize ?c = ?c" by simp
    from splice_Element [of e1 cs r new] obtain cs1 where
      c: "?c = Element e1 cs1" unfolding k by blast
    from nc c have "normal_nodes cs1" by (simp add: normal_iff)
    from normal_update [OF nk j k this, of e1]
    have "normal_nodes (ks[j := ?c])" by (simp add: c)
    with j show ?thesis
      unfolding n splice_step [OF False] by (simp add: normal_iff)
  qed
qed

lemma scan_text:
  assumes "node_at doc p = Some el" and "scan h 0 (textNodes el) = Some (q, new)"
    and "startOffset h \<le> endOffset h"
  shows "\<exists>content. node_at doc (p @ q) = Some (Text content) \<and>
           concat (map descendant_text new) = content"
  using highlight_in_text_node [OF assms]
  by (elim exE conjE) (simp add: pieces_text)

lemma restore_cases:
  "restore other doc h = doc \<or>
   (\<exists>p q c new. q \<noteq> [] \<and> node_at doc (p @ q) = Some (Text c) \<and> marker_pieces h new \<and>
      (startOffset h \<le> endOffset h \<longrightarrow> concat (map descendant_text new) = c) \<and>
      restore other doc h = splice doc (p @ q) new)"
proof (cases "getElementByXPath other doc (xpath h)")
  case (Inl e)
  then show ?thesis by (simp add: restore_def)
next
  case (Inr r)
  show ?thesis
  proof (cases r)
    case None
    with Inr show ?thesis by (simp add: restore_def)
  next
    case (Some p)
    with Inr have x: "restore other doc h = highlightTextInElement doc p h"
      by (simp add: restore_def)
    show ?thesis
    proof (cases "node_at doc p")
      case None
      with x show ?thesis by (simp add: highlightTextInElement_def)
    next
      case el: (Some el)
      show ?thesis
      proof (cases "scan h 0 (textNodes el)")
        case None
        with x el show ?thesis by (simp add: highlightTextInElement_def)
      next
        case sc: (Some qn)
        obtain q new where qn: "qn = (q, new)" by (cases qn)
        from scan_pieces [OF sc [unfolded qn]] obtain c where
          c: "(q, c) \<in> set (textNodes el)" and m: "marker_pieces h new" by blast
        from textNodes_paths [OF c] have q: "q \<noteq> []" and t: "node_at el q = Some (Text c)"
          by simp_all
        from node_at_append [OF el, of q] t have a: "node_at doc (p @ q) = Some (Text c)" by simp
        have o: "startOffset h \<le> endOffset h \<longrightarrow> concat (map descendant_text new) = c"
        proof
          assume le: "startOffset h \<le> endOffset h"
          from scan_text [OF el sc [unfolded qn] le] a
          show "concat (map descendant_text new) = c" by auto
        qed
        have "restore other doc h = splice doc (p @ q) new"
          using x el sc qn by (simp add: highlightTextInElement_def)
        with q a m o show ?thesis by blast
      qed
    qed
  qed
qed

lemma restore_normal:
  assumes "normalize doc = doc"
  shows "normalize (restore other doc h) = restore other doc h"
  using restore_cases [of other doc h] assms
  by (auto simp: splice_normal)

lemma restore_unmark:
  assumes "startOffset h \<le> endOffset h"
  shows "normalize (unmark (restore other doc h)) = normalize (unmark doc)"
proof -
  from restore_cases [of other doc h] show ?thesis
  proof
    assume "restore other doc h = doc"
    then show ?thesis by simp
  next
    assume "\<exists>p q c new. q \<noteq> [] \<and> node_at doc (p @ q) = Some (Text c) \<and> marker_pieces h new \<and>
      (startOffset h \<le> endOffset h \<longrightarrow> concat (map descendant_text new) = c) \<and>
      restore other doc h = splice doc (p @ q) new"
    then obtain p q c new where q: "q \<noteq> []" and a: "node_at doc (p @ q) = Some (Text c)"
      and m: "marker_pieces h new" and t: "concat (map descendant_text new) = c"
      and r: "restore other doc h = splice doc (p @ q) new"
      using assms by blast
    from q have "p @ q \<noteq> []" by simp
    from splice_unmark [OF a this pieces_unmark [OF m t] t] r show ?thesis by simp
  qed
qed

lemma foldl_restore_normal:
  "normalize doc = doc \<Longrightarrow> normalize (foldl (restore other) doc hs) = foldl (restore other) doc hs"
  by (induction hs arbitrary: doc) (simp_all add: restore_normal)

lemma foldl_restore_unmark:
  "list_all (\<lambda>h. startOffset h \<le> endOffset h) hs \<Longrightarrow>
   normalize (unmark (foldl (restore other) doc hs)) = normalize (unmark doc)"
  by (induction hs arbitrary: doc) (simp_all add: restore_unmark)

subsection \<open>The sample page\<close>

lemma sample_remove: "removeHighlights sample_document = Inr sample_document"
  by code_simp

lemma sample_getByUrl:
  "getByUrl ''https://example.org/'' sample_storage =
     Inr (Highlights
       ([] @ sample_highlight\<lparr> id_h := ''lost'', xpath := ''/html[1]/body[1]/div[1]'' \<rparr>
            # [sample_highlight]))"
  by code_simp




lemma sample_pass:
  "renderHighlights rejecting ignoring ''https://example.org/'' sample_storage sample_document =
     Inr sample_marked"
  by code_simp

lemma sample_wf:
  "list_all (\<lambda>h. startOffset h \<le> endOffset h)
     ([] @ sample_highlight\<lparr> id_h := ''lost'', xpath := ''/html[1]/body[1]/div[1]'' \<rparr>
            # [sample_highlight])"
  by (simp add: sample_highlight_def)

lemma sample_unmark: "removeHighlights sample_marked = Inr sample_document"
  by code_simp

lemma sample_restored:
  "restored rejecting sample_document
     ([] @ sample_highlight\<lparr> id_h := ''lost'', xpath := ''/html[1]/body[1]/div[1]'' \<rparr>
            # [sample_highlight]) = [sample_highlight]"
  by code_simp

lemma sample_normal: "normalize sample_document = sample_document"
  by code_simp

text \<open>
  On a paragraph with two adjacent text nodes the first pass restores the records
  \<open>y\<close> and \<open>z\<close>, one in each text node. The second pass merges the two text nodes when
  it unwinds the markers, and restores the record \<open>x\<close> across the place where they met:
  then neither \<open>y\<close> nor \<open>z\<close> has a text node that holds it.
\<close>

lemma adjacent_text_nodes_change_markers:
  "normalize adjacent_document \<noteq> adjacent_document \<and>
   renderHighlights rejecting ignoring ''https://example.org/'' adjacent_storage adjacent_document =
     Inr (Element (html_element ''html'')
       [Element (html_element ''head'') [],
        Element (html_element ''body'')
          [Element (html_element ''p'')
             [marker (sample_highlight\<lparr> id_h := ''y'', startOffset := 0, endOffset := 2 \<rparr>) ''ab'',
              marker (sample_highlight\<lparr> id_h := ''z'', startOffset := 2, endOffset := 4 \<rparr>) ''cd'']]]) \<and>
   renderHighlights rejecting ignoring ''https://example.org/'' adjacent_storage
     (Element (html_element ''html'')
       [Element (html_element ''head'') [],
        Element (html_element ''body'')
          [Element (html_element ''p'')
             [marker (sample_highlight\<lparr> id_h := ''y'', startOffset := 0, endOffset := 2 \<rparr>) ''ab'',
              marker (sample_highlight\<lparr> id_h := ''z'', startOffset := 2, endOffset := 4 \<rparr>) ''cd'']]]) =
     Inr (Element (html_element ''html'')
       [Element (html_element ''head'') [],
        Element (html_element ''body'')
          [Element (html_element ''p'')
             [Text ''a'',
              marker (sample_highlight\<lparr> id_h := ''x'', startOffset := 1, endOffset := 3 \<rparr>) ''bc'',
              Text ''d'']]])"
  by code_simp

section \<open>Properties of the address codec\<close>

subsection \<open>Characters and names\<close>

lemma code_char_of: "n < 256 \<Longrightarrow> code (char_of n) = n"
  by (simp add: code_def)

lemma code_less: "code c < 256"
  by (simp add: code_def)

lemma code_inj: "code a = code b \<Longrightarrow> a = b"
  by (simp add: code_def)

lemma lower_upper: "ascii_lower (ascii_upper c) = ascii_lower c"
  by (auto simp: ascii_lower_def ascii_upper_def is_upper_def is_lower_def code_char_of
      intro!: code_inj)

lemma upper_lower: "ascii_upper (ascii_lower c) = ascii_upper c"
  by (auto simp: ascii_lower_def ascii_upper_def is_upper_def is_lower_def code_char_of
      intro!: code_inj)

lemma lower_lower: "ascii_lower (ascii_lower c) = ascii_lower c"
  by (auto simp: ascii_lower_def ascii_upper_def is_upper_def is_lower_def code_char_of)

lemma code_literals:
  "code CHR ''_'' = 95" "code CHR ''-'' = 45" "code CHR ''.'' = 46"
  "code CHR ''['' = 91" "code CHR '']'' = 93" "code CHR ''/'' = 47"
  by (simp_all add: code_def)

lemma char_eq_code:
  "c = CHR ''_'' \<longleftrightarrow> code c = 95" "c = CHR ''-'' \<longleftrightarrow> code c = 45"
  "c = CHR ''.'' \<longleftrightarrow> code c = 46" "c = CHR ''['' \<longleftrightarrow> code c = 91"
  "c = CHR '']'' \<longleftrightarrow> code c = 93" "c = CHR ''/'' \<longleftrightarrow> code c = 47"
  using code_inj [of c] code_literals by auto

lemma is_name_char_code:
  "is_name_char c \<longleftrightarrow>
     (65 \<le> code c \<and> code c \<le> 90) \<or> (97 \<le> code c \<and> code c \<le> 122) \<or> code c = 95 \<or>
     (48 \<le> code c \<and> code c \<le> 57) \<or> code c = 45 \<or> code c = 46"
  by (auto simp: is_name_char_def is_name_start_def is_upper_def is_lower_def is_digit_def
      char_eq_code)

lemma toLower_upper:
  "is_name_char c \<Longrightarrow> toLowerCase_char (ascii_upper c) = ascii_lower c"
  by (auto simp: toLowerCase_char_def ascii_lower_def ascii_upper_def is_upper_def is_lower_def
        is_name_char_code code_char_of
      intro!: code_inj)

lemma name_char_lower: "is_name_char c \<Longrightarrow> is_name_char (ascii_lower c)"
  by (auto simp: ascii_lower_def is_upper_def is_name_char_code code_char_of)

lemma name_start_lower: "is_name_start c \<Longrightarrow> is_name_start (ascii_lower c)"
  by (auto simp: ascii_lower_def is_upper_def is_lower_def is_name_start_def char_eq_code
      code_char_of)

lemma NCName_lower: "is_NCName s \<Longrightarrow> is_NCName (map ascii_lower s)"
  by (cases s) (auto simp: is_NCName_def name_char_lower name_start_lower list_all_iff)

lemma toLowerCase_nodeName:
  "list_all is_name_char s \<Longrightarrow> toLowerCase (map ascii_upper s) = map ascii_lower s"
  by (induction s) (simp_all add: toLowerCase_def toLower_upper)

lemma upper_eq_lower_eq:
  "map ascii_upper a = map ascii_upper b \<longleftrightarrow> map ascii_lower a = map ascii_lower b"
proof
  assume "map ascii_upper a = map ascii_upper b"
  then have "map ascii_lower (map ascii_upper a) = map ascii_lower (map ascii_upper b)" by simp
  then show "map ascii_lower a = map ascii_lower b" by (simp add: lower_upper comp_def)
next
  assume "map ascii_lower a = map ascii_lower b"
  then have "map ascii_upper (map ascii_lower a) = map ascii_upper (map ascii_lower b)" by simp
  then show "map ascii_upper a = map ascii_upper b" by (simp add: upper_lower comp_def)
qed

subsection \<open>Numbers\<close>

lemma digit_char: "d < 10 \<Longrightarrow> code (char_of (48 + d)) = 48 + d"
  by (simp add: code_char_of)

lemma is_digit_char: "(d::nat) < 10 \<Longrightarrow> is_digit (char_of (48 + d))"
  by (simp add: is_digit_def digit_char)

lemma show_nat_digits: "show_nat n \<noteq> [] \<and> list_all is_digit (show_nat n)"
proof (induction n rule: show_nat.induct)
  case (1 n)
  have m: "n mod 10 < 10" by simp
  show ?case
  proof (cases "n < 10")
    case True
    then show ?thesis
      by (subst (1 2) show_nat.simps) (simp add: is_digit_char)
  next
    case False
    with 1 is_digit_char [OF m] show ?thesis
      by (subst (1 2) show_nat.simps) simp
  qed
qed

lemma nat_of_digits_snoc:
  "nat_of_digits (ds @ [c]) = 10 * nat_of_digits ds + (code c - 48)"
  by (simp add: nat_of_digits_def)

lemma nat_of_digits_show: "nat_of_digits (show_nat n) = n"
proof (induction n rule: show_nat.induct)
  case (1 n)
  have m: "n mod 10 < 10" by simp
  show ?case
  proof (cases "n < 10")
    case True
    then show ?thesis
      by (subst show_nat.simps) (simp add: nat_of_digits_def digit_char)
  next
    case False
    with 1 have "nat_of_digits (show_nat (n div 10)) = n div 10" by simp
    with False m show ?thesis
      by (subst show_nat.simps) (simp add: nat_of_digits_snoc digit_char)
  qed
qed

subsection \<open>Reading the steps\<close>

lemma not_name_char: "\<not> is_name_char CHR ''[''" "\<not> is_name_char CHR ''/''"
  by (simp_all add: is_name_char_code code_literals)

lemma not_digit: "\<not> is_digit CHR ''/''" "\<not> is_digit CHR '']''"
  by (simp_all add: is_digit_def code_literals)

lemma parse_step_segment:
  assumes "is_NCName name"
  shows "parse_step (name @ ''['' @ show_nat k @ '']'') = Some (name, k)"
proof -
  from assms have a: "\<forall>x\<in>set name. is_name_char x"
    by (simp add: is_NCName_def list_all_iff)
  have t: "takeWhile is_name_char (name @ CHR ''['' # show_nat k @ '']'') = name"
    using a by (simp add: takeWhile_append2 not_name_char)
  have d: "dropWhile is_name_char (name @ CHR ''['' # show_nat k @ '']'') =
             CHR ''['' # show_nat k @ '']''"
    using a by (simp add: dropWhile_append2 not_name_char)
  from show_nat_digits [of k] assms show ?thesis
    by (simp add: parse_step_def t d nat_of_digits_show butlast_append)
qed

lemma split_on_nonempty: "split_on d s \<noteq> []"
  by (induction s) (auto split: list.splits)

lemma split_on_none: "d \<notin> set s \<Longrightarrow> split_on d s = [s]"
  by (induction s) auto

lemma split_on_append: "d \<notin> set s \<Longrightarrow> split_on d (s @ d # t) = s # split_on d t"
  by (induction s) (auto simp: split_on_nonempty split: list.splits)

lemma split_on_join:
  "segs \<noteq> [] \<Longrightarrow> \<forall>seg\<in>set segs. d \<notin> set seg \<Longrightarrow> split_on d (join [d] segs) = segs"
proof (induction "[d]" segs rule: join.induct)
  case 1
  then show ?case by simp
next
  case (2 x)
  then show ?case by (simp add: split_on_none)
next
  case (3 x y xs)
  then show ?case by (simp add: split_on_append)
qed

lemma segment_html:
  assumes "ns e = HTML" and "is_NCName (localName e)"
  shows "segment (Element e cs) k = map ascii_lower (localName e) @ ''['' @ show_nat k @ '']''"
    and "parse_step (segment (Element e cs) k) = Some (map ascii_lower (localName e), k)"
    and "CHR ''/'' \<notin> set (segment (Element e cs) k)"
proof -
  from assms(2) have a: "list_all is_name_char (localName e)"
    by (simp add: is_NCName_def)
  show s: "segment (Element e cs) k = map ascii_lower (localName e) @ ''['' @ show_nat k @ '']''"
    using assms(1) by (simp add: segment_def toLowerCase_nodeName [OF a])
  show "parse_step (segment (Element e cs) k) = Some (map ascii_lower (localName e), k)"
    unfolding s by (rule parse_step_segment) (rule NCName_lower [OF assms(2)])
  have "\<forall>c\<in>set (map ascii_lower (localName e)). is_name_char c"
    using NCName_lower [OF assms(2)] by (simp add: is_NCName_def list_all_iff)
  then have 1: "CHR ''/'' \<notin> set (map ascii_lower (localName e))"
    using not_name_char(2) by blast
  have "\<forall>c\<in>set (show_nat k). is_digit c"
    using show_nat_digits [of k] by (simp add: list_all_iff)
  then have 2: "CHR ''/'' \<notin> set (show_nat k)"
    using not_digit(1) by blast
  from 1 2 show "CHR ''/'' \<notin> set (segment (Element e cs) k)"
    unfolding s by simp
qed

lemma nth_match_index:
  "i < length ks \<Longrightarrow> P (ks ! i) \<Longrightarrow>
   nth_match P (1 + length (filter P (take i ks))) ks = Some i"
proof (induction ks arbitrary: i)
  case Nil
  then show ?case by simp
next
  case (Cons k ks)
  show ?case
  proof (cases i)
    case 0
    with Cons.prems show ?thesis by simp
  next
    case (Suc j)
    with Cons.prems have "j < length ks" "P (ks ! j)" by simp_all
    from Cons.IH [OF this] Suc show ?thesis by simp
  qed
qed

subsection \<open>Resolving the steps\<close>

lemma well_addressed_element:
  assumes "well_addressed ks i"
  obtains e cs where "ks ! i = Element e cs" "ns e = HTML" "is_NCName (localName e)"
    "list_all (no_foreign_namesake (map ascii_upper (localName e))) (take i ks)"
  using assms by (auto simp: well_addressed_def split: node.splits)

lemma sibling_index_match:
  assumes "i < length ks" and "ks ! i = Element e cs" and "ns e = HTML"
    and "list_all (no_foreign_namesake (map ascii_upper (localName e))) (take i ks)"
  shows "nth_match (name_test (map ascii_lower (localName e))) (sibling_index ks i) ks = Some i"
proof -
  let ?P = "name_test (map ascii_lower (localName e))"
  let ?Q = "\<lambda>sibling. is_element sibling \<and> nodeName sibling = nodeName (ks ! i)"
  have "?Q x = ?P x" if "x \<in> set (take i ks)" for x
  proof (cases x)
    case (Element e' cs')
    from that assms(4) have nf: "ns e' = HTML \<or> localName e' \<noteq> map ascii_upper (localName e)"
      by (auto simp: list_all_iff Element)
    show ?thesis
    proof (cases "ns e' = HTML")
      case True
      then show ?thesis
        using assms(2,3) Element upper_eq_lower_eq [of "localName e'" "localName e"]
        by (simp add: lower_lower comp_def)
    next
      case False
      with nf assms(2,3) Element show ?thesis by simp
    qed
  qed simp_all
  then have "filter ?Q (take i ks) = filter ?P (take i ks)"
    by (intro filter_cong) auto
  then have s: "sibling_index ks i = 1 + length (filter ?P (take i ks))"
    by (simp add: sibling_index_def)
  have "?P (ks ! i)"
    using assms(2,3) by (simp add: lower_lower comp_def)
  from nth_match_index [of i ks ?P, OF assms(1) this] show ?thesis
    by (simp only: s)
qed

lemma resolve_below:
  "well_addressed_below n p \<Longrightarrow>
   \<exists>steps. parse_steps (segments_below n p) = Some steps \<and>
           resolve (child_nodes n) steps = Some p \<and>
           (\<forall>seg\<in>set (segments_below n p). CHR ''/'' \<notin> set seg)"
proof (induction n p rule: segments_below.induct)
  case (1 n)
  then show ?case by simp
next
  case (2 e ks i p)
  then have i: "i < length ks" and w: "well_addressed ks i"
    and b: "well_addressed_below (ks ! i) p" by simp_all
  from w obtain e' cs' where el: "ks ! i = Element e' cs'" "ns e' = HTML"
    "is_NCName (localName e')"
    "list_all (no_foreign_namesake (map ascii_upper (localName e'))) (take i ks)"
    by (rule well_addressed_element)
  from "2.IH" [OF i b] obtain steps where
    st: "parse_steps (segments_below (ks ! i) p) = Some steps"
        "resolve (child_nodes (ks ! i)) steps = Some p"
        "\<forall>seg\<in>set (segments_below (ks ! i) p). CHR ''/'' \<notin> set seg" by blast
  let ?name = "map ascii_lower (localName e')"
  let ?k = "sibling_index ks i"
  note sg = segment_html [OF el(2,3), of cs' ?k]
  have m: "nth_match (name_test ?name) ?k ks = Some i"
    using i el(1,2,4) by (rule sibling_index_match)
  have 1: "parse_steps (segments_below (Element e ks) (i # p)) = Some ((?name, ?k) # steps)"
    using i el(1) sg(2) st(1) by simp
  have 2: "resolve (child_nodes (Element e ks)) ((?name, ?k) # steps) = Some (i # p)"
    using m st(2) by simp
  have 3: "\<forall>seg\<in>set (segments_below (Element e ks) (i # p)). CHR ''/'' \<notin> set seg"
    using i el(1) sg(3) st(3) by simp
  from 1 2 3 show ?case by blast
qed simp_all

lemma well_addressed_node:
  "well_addressed_below n p \<Longrightarrow> is_element n \<Longrightarrow> \<exists>e ks. node_at n p = Some (Element e ks)"
proof (induction n p rule: well_addressed_below.induct)
  case (1 n)
  then show ?case by (cases n) simp_all
next
  case (2 e ks i p)
  then have i: "i < length ks" and w: "well_addressed ks i"
    and b: "well_addressed_below (ks ! i) p" by simp_all
  from w have "is_element (ks ! i)" by (auto elim: well_addressed_element)
  from "2.IH" [OF b this] i show ?case by simp
qed simp_all


section \<open>The restoration engine\<close>

subsection \<open>C5: the splice keeps the text\<close>




subsection \<open>C9: the stored text is not read\<close>

text \<open>
  C9: restoration never reads the \<^verbatim>\<open>text\<close> field of a record. Two records that differ
  in that field only are restored to the same document, and a pass over a store whose
  records had their \<^verbatim>\<open>text\<close> fields replaced at will gives the same document.
\<close>

theorem text_field_not_read:
  "restore other doc (h\<lparr> text_h := t \<rparr>) = restore other doc h \<and>
   renderHighlights other untyped href
     (st\<lparr> slot := Some (Serialized (map (\<lambda>h. h\<lparr> text_h := f h \<rparr>) hs)) \<rparr>) doc =
   renderHighlights other untyped href (st\<lparr> slot := Some (Serialized hs) \<rparr>) doc"
  by (simp add: restore_text_field renderHighlights_def getByUrl_def getAll_def
      filter_url_text_field foldl_restore_text_field split: sum.splits)


subsection \<open>C3: a failed record is skipped\<close>




subsection \<open>C2: a second pass\<close>

text \<open>
  C2 says that, for every document and record set, two passes in succession give the
  text content that one pass gives. For a stored record whose start offset is above
  its end offset the restoration writes a part of the text twice more (see C5), and
  each pass does so again on the text that the pass before it left: on the sample page
  with the record 15 to 6, the text content after the first pass has \<^verbatim>\<open>wonderful\<close>
  three times, and after the second pass five times.
\<close>

theorem second_pass_grows_text:
  "renderHighlights rejecting ignoring ''https://example.org/'' reversed_storage sample_document =
     Inr (Element (html_element ''html'')
       [Element (html_element ''head'') [],
        Element (html_element ''body'')
          [Element (html_element ''p'')
             [Text ''Hello wonderful'', marker reversed_highlight ''wonderful'',
              Text ''wonderful world'']]]) \<and>
   renderHighlights rejecting ignoring ''https://example.org/'' reversed_storage
     (Element (html_element ''html'')
       [Element (html_element ''head'') [],
        Element (html_element ''body'')
          [Element (html_element ''p'')
             [Text ''Hello wonderful'', marker reversed_highlight ''wonderful'',
              Text ''wonderful world'']]]) =
     Inr (Element (html_element ''html'')
       [Element (html_element ''head'') [],
        Element (html_element ''body'')
          [Element (html_element ''p'')
             [Text ''Hello wonderful'', marker reversed_highlight ''wonderful'',
              Text ''wonderfulwonderfulwonderful world'']]]) \<and>
   textContent sample_document = ''Hello wonderful world'' \<and>
   textContent (Element (html_element ''html'')
       [Element (html_element ''head'') [],
        Element (html_element ''body'')
          [Element (html_element ''p'')
             [Text ''Hello wonderful'', marker reversed_highlight ''wonderful'',
              Text ''wonderful world'']]]) = ''Hello wonderfulwonderfulwonderful world'' \<and>
   textContent (Element (html_element ''html'')
       [Element (html_element ''head'') [],
        Element (html_element ''body'')
          [Element (html_element ''p'')
             [Text ''Hello wonderful'', marker reversed_highlight ''wonderful'',
              Text ''wonderfulwonderfulwonderful world'']]]) =
     ''Hello wonderfulwonderfulwonderfulwonderfulwonderful world''"
  by code_simp

text \<open>
  C2, as the code has it: for a document that \<^verbatim>\<open>normalize\<close> would leave as it is (no
  empty text node, no two adjacent text nodes) and records, read from the store as a
  list of highlights, none with its start offset above its end offset, a second pass
  after a pass that returned gives the very document that the first pass gave, with
  the text content of the document before the first pass. The second pass first
  unwinds every marker: with the merging of the adjacent text nodes, it gets back the
  document without markers that the first pass restored its records into. And the
  markers in the document are, one for one by their \<^verbatim>\<open>data-highlight-id\<close>, the
  records that a pass restored.
\<close>

theorem restoration_idempotent:
  assumes "normalize doc = doc"
    and "getByUrl href st = Inr (Highlights hs)"
    and "list_all (\<lambda>h. startOffset h \<le> endOffset h) hs"
    and "renderHighlights other untyped href st doc = Inr d1"
  shows "renderHighlights other untyped href st d1 = Inr d1 \<and>
         textContent d1 = textContent doc \<and>
         (\<exists>d0. removeHighlights doc = Inr d0 \<and> removeHighlights d1 = Inr d0 \<and>
               count_highlights d0 = 0 \<and>
               d1 = foldl (restore other) d0 hs \<and>
               mset (highlight_ids d1) =
                 mset (map (\<lambda>h. Some (id_h h)) (restored other d0 hs)) \<and>
               count_highlights d1 = length (restored other d0 hs))"
proof -
  from assms(2,4) obtain d0 where d0: "removeHighlights doc = Inr d0"
    and d1: "d1 = foldl (restore other) d0 hs"
    by (auto simp: renderHighlights_def split: sum.splits)
  note p0 = removeHighlights_props [OF d0]
  from removeHighlights_root [OF d0] p0(3) have "\<not> is_highlight doc" by simp
  from removeHighlights_unmark [OF this assms(1)] d0
  have "d0 = normalize (unmark doc)" by simp
  then have n0: "normalize d0 = d0" by (simp add: normalize_idem)
  have n1: "normalize d1 = d1"
    unfolding d1 by (rule foldl_restore_normal [OF n0])
  have h1: "\<not> is_highlight d1"
    unfolding d1 using p0(3) by (simp add: foldl_restore_props(1))
  have "normalize (unmark d1) = normalize (unmark d0)"
    unfolding d1 by (rule foldl_restore_unmark [OF assms(3)])
  also have "\<dots> = d0"
    using n0 by (simp add: unmark_clean [OF p0(2)])
  finally have u: "removeHighlights d1 = Inr d0"
    using removeHighlights_unmark [OF h1 n1] by simp
  have r: "renderHighlights other untyped href st d1 = Inr d1"
    using u assms(2) d1 by (simp add: renderHighlights_def)
  have t: "textContent d1 = textContent doc"
    unfolding d1 using foldl_restore_props(3) [OF assms(3), of other d0] p0(1) by simp
  from p0(2) have "highlight_ids d0 = []" by (simp add: count_ids)
  with foldl_restore_props(2) [of other d0 hs]
  have m: "mset (highlight_ids d1) = mset (map (\<lambda>h. Some (id_h h)) (restored other d0 hs))"
    unfolding d1 by simp
  then have "size (mset (highlight_ids d1)) =
             size (mset (map (\<lambda>h. Some (id_h h)) (restored other d0 hs)))"
    by simp
  then have c: "count_highlights d1 = length (restored other d0 hs)"
    by (simp add: count_ids)
  from r t d0 u p0(2) d1 m c show ?thesis by blast
qed

theorem restoration_idempotent_witness:
  "normalize sample_document = sample_document \<and>
   getByUrl ''https://example.org/'' sample_storage =
     Inr (Highlights
       ([] @ sample_highlight\<lparr> id_h := ''lost'', xpath := ''/html[1]/body[1]/div[1]'' \<rparr>
            # [sample_highlight])) \<and>
   list_all (\<lambda>h. startOffset h \<le> endOffset h)
     ([] @ sample_highlight\<lparr> id_h := ''lost'', xpath := ''/html[1]/body[1]/div[1]'' \<rparr>
            # [sample_highlight]) \<and>
   renderHighlights rejecting ignoring ''https://example.org/'' sample_storage sample_document =
     Inr sample_marked \<and>
   renderHighlights rejecting ignoring ''https://example.org/'' sample_storage sample_marked =
     Inr sample_marked \<and>
   removeHighlights sample_marked = Inr sample_document \<and>
   mset (highlight_ids sample_marked) = {#Some ''a''#} \<and>
   count_highlights sample_marked = 1"
proof -
  from restoration_idempotent [OF sample_normal sample_getByUrl sample_wf sample_pass]
  obtain d0 where r: "renderHighlights rejecting ignoring ''https://example.org/'' sample_storage
        sample_marked = Inr sample_marked"
    and a: "removeHighlights sample_document = Inr d0"
    and u: "removeHighlights sample_marked = Inr d0"
    and m: "mset (highlight_ids sample_marked) = mset (map (\<lambda>h. Some (id_h h))
              (restored rejecting d0
                 ([] @ sample_highlight\<lparr> id_h := ''lost'', xpath := ''/html[1]/body[1]/div[1]'' \<rparr>
                    # [sample_highlight])))"
    and c: "count_highlights sample_marked = length
              (restored rejecting d0
                 ([] @ sample_highlight\<lparr> id_h := ''lost'', xpath := ''/html[1]/body[1]/div[1]'' \<rparr>
                    # [sample_highlight]))"
    by blast
  from a have d: "d0 = sample_document" by (simp add: sample_remove)
  from m have m': "mset (highlight_ids sample_marked) = {#Some ''a''#}"
    unfolding d sample_restored by (simp add: sample_highlight_def)
  from c have c': "count_highlights sample_marked = 1"
    unfolding d sample_restored by simp
  from r u [unfolded d] m' c' sample_normal sample_getByUrl sample_wf sample_pass
  show ?thesis by blast
qed

section \<open>The address codec: round trip\<close>

subsection \<open>C4: decoding an encoded address\<close>

text \<open>
  C4 says that for every element of the document, \<^verbatim>\<open>getElementByXPath\<close> applied to
  the result of \<^verbatim>\<open>generateXPath\<close> returns the element. The path is written from
  lower-cased node names without a namespace, and a step without prefix selects HTML
  elements only. On the page \<open>svg_document\<close>, whose body holds a paragraph and an inline
  \<^verbatim>\<open><svg>\<close>, the path generated for the \<^verbatim>\<open><svg>\<close> element selects nothing.
\<close>

theorem svg_element_not_found:
  "node_at svg_document [1, 1] =
     Some (Element ((html_element ''svg'')\<lparr> ns := SVG \<rparr>)
            [Element ((html_element ''text'')\<lparr> ns := SVG \<rparr>) [Text ''label'']]) \<and>
   generateXPath svg_document [1, 1] = ''/html[1]/body[1]/svg[1]'' \<and>
   getElementByXPath rejecting svg_document (generateXPath svg_document [1, 1]) = Inr None"
  by code_simp

text \<open>
  C4, as the code has it: the round trip holds for every element that is well
  addressed, that is, an HTML element whose elements above it are HTML elements, all
  with names that a step can carry (ASCII letters, digits, \<^verbatim>\<open>_\<close>, \<^verbatim>\<open>-\<close>, \<^verbatim>\<open>.\<close>, starting
  with a letter or \<^verbatim>\<open>_\<close>), none of them with an earlier sibling of another namespace
  that has its node name. For such an element the decoded address is the element
  itself, whatever the rest of the XPath evaluator does. Nothing is said of the other
  elements.
\<close>

theorem address_round_trip:
  assumes "addressable doc p"
  shows "getElementByXPath other doc (generateXPath doc p) = Inr (Some p)"
proof -
  from assms have w: "well_addressed [doc] 0" and b: "well_addressed_below doc p"
    by (simp_all add: addressable_def)
  from w obtain e cs where d: "doc = Element e cs" "ns e = HTML" "is_NCName (localName e)"
    by (auto elim: well_addressed_element)
  from well_addressed_node [OF b] d(1) obtain e' ks' where
    n: "node_at doc p = Some (Element e' ks')" by auto
  from resolve_below [OF b] obtain steps where
    st: "parse_steps (segments_below doc p) = Some steps"
        "resolve (child_nodes doc) steps = Some p"
        "\<forall>seg\<in>set (segments_below doc p). CHR ''/'' \<notin> set seg" by blast
  let ?name = "map ascii_lower (localName e)"
  let ?segs = "segment doc 1 # segments_below doc p"
  note sg = segment_html [OF d(2,3), of cs 1, folded d(1)]
  have g: "generateXPath doc p = CHR ''/'' # join ''/'' ?segs"
    using n by (simp add: generateXPath_def)
  have "split_on CHR ''/'' (join ''/'' ?segs) = ?segs"
    using sg(3) st(3) by (intro split_on_join) simp_all
  then have sp: "split_on CHR ''/'' (generateXPath doc p) = [] # ?segs"
    by (simp add: g)
  have ps: "parse_location_path (generateXPath doc p) = Some ((?name, 1) # steps)"
    using sg(2) st(1) by (simp add: parse_location_path_def sp)
  have "name_test ?name doc"
    using d by (simp add: lower_lower comp_def)
  then have "resolve [doc] ((?name, 1) # steps) = Some (0 # p)"
    using st(2) by simp
  with ps show ?thesis
    by (simp add: getElementByXPath_def document_evaluate_def)
qed


theorem address_round_trip_witness:
  "addressable sample_document [1, 0] \<and>
   generateXPath sample_document [1, 0] = ''/html[1]/body[1]/p[1]'' \<and>
   getElementByXPath rejecting sample_document ''/html[1]/body[1]/p[1]'' = Inr (Some [1, 0])"
proof -
  have a: "addressable sample_document [1, 0]" by code_simp
  have g: "generateXPath sample_document [1, 0] = ''/html[1]/body[1]/p[1]''" by code_simp
  from address_round_trip [OF a, of rejecting] a g show ?thesis by simp
qed


section \<open>Selection capture\<close>

lemma world_capture:
  "handleMouseUp sample_environment (Some True) (Some world_selection) mixed_document
     empty_storage
   = Inr \<lparr> slot = Some (Serialized [world_record]), setItem_calls = 1 \<rparr>"
  by code_simp


subsection \<open>C7: what is persisted\<close>

text \<open>
  C7: the handler writes to the store only when the extension is active, the selection
  is there and not collapsed, the trimmed selected text has at least 3 characters, and
  the start and end containers of the range are one and the same text node. A
  selection that spans two distinct nodes leaves the store as it was.
\<close>

theorem capture_only_same_text_node:
  "(handleMouseUp env isActivated selection doc st = Inr st' \<and> st' \<noteq> st \<longrightarrow>
      isActivated = Some True \<and>
      (\<exists>sel range' others data.
         selection = Some sel \<and> \<not> isCollapsed sel \<and> ranges sel = range' # others \<and>
         3 \<le> length (trim (toString sel)) \<and>
         startContainer range' = endContainer range' \<and>
         node_at doc (startContainer range') = Some (Text data))) \<and>
   (selection = Some sel \<and> ranges sel = range' # others \<and>
      startContainer range' \<noteq> endContainer range' \<longrightarrow>
      handleMouseUp env isActivated selection doc st = Inr st)"
  by (auto simp: handleMouseUp_def Let_def split: if_splits option.splits list.splits node.splits)

theorem capture_only_same_text_node_witness:
  "handleMouseUp sample_environment (Some True) (Some world_selection) mixed_document
     empty_storage
   = Inr \<lparr> slot = Some (Serialized [world_record]), setItem_calls = 1 \<rparr> \<and>
   \<lparr> slot = Some (Serialized [world_record]), setItem_calls = 1 \<rparr> \<noteq> empty_storage \<and>
   (\<exists>sel range' others data.
       Some world_selection = Some sel \<and> \<not> isCollapsed sel \<and> ranges sel = range' # others \<and>
       3 \<le> length (trim (toString sel)) \<and> startContainer range' = endContainer range' \<and>
       node_at mixed_document (startContainer range') = Some (Text data)) \<and>
   handleMouseUp sample_environment (Some True) (Some spanning_selection) mixed_document
     empty_storage = Inr empty_storage"
proof -
  have n: "\<lparr> slot = Some (Serialized [world_record]), setItem_calls = 1 \<rparr> \<noteq> empty_storage"
    by (simp add: empty_storage_def)
  have s: "ranges spanning_selection = hd (ranges spanning_selection) # []"
    "startContainer (hd (ranges spanning_selection)) \<noteq> endContainer (hd (ranges spanning_selection))"
    by (simp_all add: spanning_selection_def)
  from capture_only_same_text_node
    [of sample_environment "Some True" "Some world_selection" mixed_document empty_storage
      "\<lparr> slot = Some (Serialized [world_record]), setItem_calls = 1 \<rparr>"]
    world_capture n
  have 1: "\<exists>sel range' others data.
       Some world_selection = Some sel \<and> \<not> isCollapsed sel \<and> ranges sel = range' # others \<and>
       3 \<le> length (trim (toString sel)) \<and> startContainer range' = endContainer range' \<and>
       node_at mixed_document (startContainer range') = Some (Text data)"
    by blast
  from capture_only_same_text_node
    [of sample_environment "Some True" "Some spanning_selection" mixed_document empty_storage
      _ spanning_selection "hd (ranges spanning_selection)" "[]"] s
  have 2: "handleMouseUp sample_environment (Some True) (Some spanning_selection) mixed_document
     empty_storage = Inr empty_storage"
    by blast
  from world_capture n 1 2 show ?thesis by blast
qed


subsection \<open>C1: the stored offsets\<close>

text \<open>
  C1 says that the stored offsets are offsets into the concatenated text content of
  the element that the stored address leads to, the stream that restoration scans.
  The handler stores \<^verbatim>\<open>range.startOffset\<close> and \<^verbatim>\<open>range.endOffset\<close>, which count from the
  start of the selected text node, with the address of the parent element. On the
  paragraph \<^verbatim>\<open>Hello <b>big</b> world\<close>, selecting \<^verbatim>\<open>world\<close> stores the offsets 1 and 6;
  in the text of the paragraph \<^verbatim>\<open>world\<close> is at 10 to 15, and restoration of the stored
  record marks \<^verbatim>\<open>ello \<close> in the first text node.
\<close>

theorem capture_offsets_are_node_local:
  "handleMouseUp sample_environment (Some True) (Some world_selection) mixed_document
     empty_storage
   = Inr \<lparr> slot = Some (Serialized [world_record]), setItem_calls = 1 \<rparr> \<and>
   startOffset world_record = 1 \<and> endOffset world_record = 6 \<and>
   getElementByXPath rejecting mixed_document (xpath world_record) = Inr (Some [1, 0]) \<and>
   map_option (\<lambda>n. substring (textContent n) 10 15) (node_at mixed_document [1, 0]) = Some ''world'' \<and>
   map_option (\<lambda>n. substring (textContent n) 1 6) (node_at mixed_document [1, 0]) = Some ''ello '' \<and>
   restore rejecting mixed_document world_record =
     Element (html_element ''html'')
       [Element (html_element ''head'') [],
        Element (html_element ''body'')
          [Element (html_element ''p'')
             [Text ''H'', marker world_record ''ello '',
              Element (html_element ''b'') [Text ''big''], Text '' world'']]]"
  by code_simp

end
